theory Spec2Isabelle
  imports Complex_Main "HOL-Library.Multiset"
begin

section \<open>ImgCanvas: the document reducer and the resize geometry\<close>

text \<open>
  A shallow embedding of \<^verbatim>\<open>src/context/ImageContext.tsx\<close> (the reducer
  \<^verbatim>\<open>imageReducer\<close> with its undo/redo history) and of the resize
  computation \<^verbatim>\<open>handleResize\<close> of \<^verbatim>\<open>src/components/DraggableImage.tsx\<close>.

  Conventions. A JavaScript \<^verbatim>\<open>number\<close> that holds a coordinate, a size or a
  zIndex is a \<^typ>\<open>real\<close> (NaN and the infinities are not modelled). In the reducer
  the only arithmetic on such numbers is the two sums of \<^verbatim>\<open>APPLY_CROP\<close>, taken as
  sums of reals, and the zIndex values, which are array indices. The resize computation
  is arithmetic throughout, and there the four operations are a parameter of the model,
  about which nothing is assumed;
  \<^verbatim>\<open>historyIndex\<close> is an \<^typ>\<open>int\<close>; a value of \<^verbatim>\<open>Date.now()\<close> is
  a \<^typ>\<open>nat\<close>. A \<^verbatim>\<open>string\<close> is a \<^typ>\<open>string\<close> of bytes, \<^verbatim>\<open>T | null\<close>
  and an optional field are \<^typ>\<open>'a option\<close>. The reducer runs inside immer's
  \<^verbatim>\<open>produce\<close>: the draft it mutates is returned as the next state, and an
  exception leaves no next state, which is the \<open>Inl\<close> branch of the result.
  The deep copy \<^verbatim>\<open>JSON.parse(JSON.stringify(images))\<close> is the identity on
  the values modelled here.
\<close>

subsection \<open>JavaScript primitives used by the reducer\<close>

definition digit_char :: "nat \<Rightarrow> char" where
  "digit_char d = char_of (48 + d)"

text \<open>Decimal rendering of a non-negative integer, as a template literal renders \<^verbatim>\<open>Date.now()\<close>.\<close>

fun show_nat :: "nat \<Rightarrow> string" where
  "show_nat n = (if n < 10 then [digit_char n] else show_nat (n div 10) @ [digit_char (n mod 10)])"

declare show_nat.simps [simp del]

text \<open>\<^verbatim>\<open>s.split(c)\<close> for a one-character separator: \<^verbatim>\<open>"".split("_")\<close> is \<^verbatim>\<open>[""]\<close>.\<close>

fun split_on :: "char \<Rightarrow> string \<Rightarrow> string list" where
  "split_on c [] = [[]]"
| "split_on c (a # as) =
     (if a = c then [] # split_on c as
      else (case split_on c as of [] \<Rightarrow> [[a]] | w # ws \<Rightarrow> (a # w) # ws))"

text \<open>\<^verbatim>\<open>xs[n]\<close>: \<^verbatim>\<open>undefined\<close> out of range.\<close>

definition nth_opt :: "'a list \<Rightarrow> nat \<Rightarrow> 'a option" where
  "nth_opt xs n = (if n < length xs then Some (xs ! n) else None)"

definition is_ws :: "char \<Rightarrow> bool" where
  "is_ws c = (of_char c \<in> {9::nat, 10, 11, 12, 13, 32})"

definition digit_val :: "char \<Rightarrow> nat" where
  "digit_val c =
     (let n = (of_char c :: nat) in
      if 48 \<le> n \<and> n \<le> 57 then n - 48
      else if 97 \<le> n \<and> n \<le> 122 then n - 87
      else if 65 \<le> n \<and> n \<le> 90 then n - 55
      else 36)"

text \<open>The decimal digits, by character code.\<close>

definition is_digit :: "char \<Rightarrow> bool" where
  "is_digit c = (48 \<le> (of_char c :: nat) \<and> (of_char c :: nat) \<le> 57)"

definition strip_sign :: "string \<Rightarrow> bool \<times> string" where
  "strip_sign s =
     (case s of
        [] \<Rightarrow> (False, [])
      | c # r \<Rightarrow> if c = CHR ''-'' then (True, r) else if c = CHR ''+'' then (False, r) else (False, s))"

definition strip_radix :: "string \<Rightarrow> nat \<times> string" where
  "strip_radix s =
     (case s of
        a # b # r \<Rightarrow> if a = CHR ''0'' \<and> (b = CHR ''x'' \<or> b = CHR ''X'') then (16, r) else (10, s)
      | _ \<Rightarrow> (10, s))"

text \<open>
  \<^verbatim>\<open>parseInt(s)\<close> with no radix argument: leading white space is skipped, a sign
  is read, a \<^verbatim>\<open>0x\<close> prefix selects radix 16, and the longest prefix of digits is
  the value; \<open>None\<close> is \<^verbatim>\<open>NaN\<close>. The argument \<^verbatim>\<open>undefined\<close> is read as
  the text \<^verbatim>\<open>"undefined"\<close>, which has no digit.
\<close>

definition parseInt :: "string \<Rightarrow> int option" where
  "parseInt s =
     (let (neg, s2) = strip_sign (dropWhile is_ws s);
          (radix, s3) = strip_radix s2;
          ds = takeWhile (\<lambda>c. digit_val c < radix) s3
      in if ds = [] then None
         else Some ((if neg then - 1 else 1) * int (foldl (\<lambda>a c. a * radix + digit_val c) 0 ds)))"

definition parseInt_opt :: "string option \<Rightarrow> int option" where
  "parseInt_opt v = (case v of None \<Rightarrow> None | Some s \<Rightarrow> parseInt s)"

text \<open>\<^verbatim>\<open>xs.findIndex(p)\<close>: \<open>None\<close> is \<^verbatim>\<open>-1\<close>.\<close>

fun findIndex :: "('a \<Rightarrow> bool) \<Rightarrow> 'a list \<Rightarrow> nat option" where
  "findIndex P [] = None"
| "findIndex P (a # as) = (if P a then Some 0 else map_option Suc (findIndex P as))"

text \<open>\<^verbatim>\<open>xs.slice(0, e)\<close>: a negative end counts from the end of the array.\<close>

definition sliceTo :: "'a list \<Rightarrow> int \<Rightarrow> 'a list" where
  "sliceTo xs e = (if e < 0 then take (nat (int (length xs) + e)) xs else take (nat e) xs)"

text \<open>\<^verbatim>\<open>xs.slice(-1)\<close>: the last element alone, or nothing.\<close>

definition sliceLast :: "'a list \<Rightarrow> 'a list" where
  "sliceLast xs = drop (length xs - 1) xs"

text \<open>\<^verbatim>\<open>xs.splice(i, 1)\<close>, as the array it leaves.\<close>

definition splice1 :: "nat \<Rightarrow> 'a list \<Rightarrow> 'a list" where
  "splice1 i xs = take i xs @ drop (Suc i) xs"

subsection \<open>The data model (\<^verbatim>\<open>types\<close>)\<close>

record ImageItem =
  img_id :: string
  img_src :: string
  img_x :: real
  img_y :: real
  img_width :: real
  img_height :: real
  img_originalWidth :: real
  img_originalHeight :: real
  img_zIndex :: real
  img_visible :: bool
  img_aspectRatioLocked :: bool
  img_rotation :: "real option"
  img_opacity :: "real option"

text \<open>\<^verbatim>\<open>Omit<ImageItem, 'id' | 'zIndex'>\<close>, the payload of \<^verbatim>\<open>ADD_IMAGE\<close>.\<close>

record ImagePayload =
  p_src :: string
  p_x :: real
  p_y :: real
  p_width :: real
  p_height :: real
  p_originalWidth :: real
  p_originalHeight :: real
  p_visible :: bool
  p_aspectRatioLocked :: bool
  p_rotation :: "real option"
  p_opacity :: "real option"

text \<open>\<^verbatim>\<open>Partial<ImageItem>\<close>: \<open>None\<close> is an absent key.\<close>

record ImageUpdates =
  u_id :: "string option"
  u_src :: "string option"
  u_x :: "real option"
  u_y :: "real option"
  u_width :: "real option"
  u_height :: "real option"
  u_originalWidth :: "real option"
  u_originalHeight :: "real option"
  u_zIndex :: "real option"
  u_visible :: "bool option"
  u_aspectRatioLocked :: "bool option"
  u_rotation :: "real option option"
  u_opacity :: "real option option"

datatype DragMode = Free | GridSnap

datatype HistoryAction =
    AddImage | DeleteImage | MoveImage | ResizeImage | CropImage
  | ReorderLayer | ToggleVisibility | ToggleAspectRatio | MultipleChanges

record HistoryStep =
  step_id :: string
  step_action :: HistoryAction
  step_timestamp :: nat
  step_description :: string
  step_images :: "ImageItem list"

record CropSelection =
  sel_x :: real
  sel_y :: real
  sel_width :: real
  sel_height :: real

record CropState =
  crop_imageId :: "string option"
  crop_selection :: "CropSelection option"
  crop_isActive :: bool

record AppState =
  images :: "ImageItem list"
  selectedImageId :: "string option"
  dragMode :: DragMode
  aspectRatioLocked :: bool
  history :: "HistoryStep list"
  historyIndex :: int
  cropState :: CropState
  layerSidebarVisible :: bool
  darkMode :: bool
  isLoading :: bool

text \<open>\<^verbatim>\<open>Partial<AppState>\<close>, the payload of \<^verbatim>\<open>LOAD_STATE\<close>.\<close>

record StatePatch =
  l_images :: "ImageItem list option"
  l_selectedImageId :: "string option option"
  l_dragMode :: "DragMode option"
  l_aspectRatioLocked :: "bool option"
  l_history :: "HistoryStep list option"
  l_historyIndex :: "int option"
  l_cropState :: "CropState option"
  l_layerSidebarVisible :: "bool option"
  l_darkMode :: "bool option"
  l_isLoading :: "bool option"

datatype Action =
    ADD_IMAGE ImagePayload
  | DELETE_IMAGE string
  | UPDATE_IMAGE string ImageUpdates
  | SELECT_IMAGE "string option"
  | SET_DRAG_MODE DragMode
  | TOGGLE_ASPECT_RATIO_LOCK
  | SET_ASPECT_RATIO_LOCK bool
  | UNDO
  | REDO
  | ADD_HISTORY_STEP HistoryAction string
  | START_CROP string
  | UPDATE_CROP_SELECTION CropSelection
  | APPLY_CROP
  | CANCEL_CROP
  | REORDER_LAYER string real
  | TOGGLE_LAYER_VISIBILITY string
  | TOGGLE_LAYER_SIDEBAR
  | SET_LAYER_SIDEBAR bool
  | TOGGLE_DARK_MODE
  | SET_DARK_MODE bool
  | SET_LOADING bool
  | LOAD_STATE StatePatch
  | RESET_STATE

text \<open>
  What one call of the reducer reads from the clock and the random source, in the
  order of the reads: \<^verbatim>\<open>Date.now()\<close> of the duplicate check, \<^verbatim>\<open>generateId()\<close>
  of the new image, \<^verbatim>\<open>generateId()\<close> and \<^verbatim>\<open>Date.now()\<close> of the history step.
  \<open>env_imgIdRnd\<close> and \<open>env_stepIdRnd\<close> stand for
  \<^verbatim>\<open>Math.random().toString(36).substr(2, 9)\<close>.
\<close>

record Env =
  env_now :: nat
  env_imgIdNow :: nat
  env_imgIdRnd :: string
  env_stepIdNow :: nat
  env_stepIdRnd :: string
  env_stepTime :: nat

datatype error = TypeError

subsection \<open>The reducer (\<^verbatim>\<open>ImageContext.tsx\<close>)\<close>

definition initialState :: AppState where
  "initialState =
     \<lparr> images = [], selectedImageId = None, dragMode = Free, aspectRatioLocked = True,
       history = [], historyIndex = - 1,
       cropState = \<lparr> crop_imageId = None, crop_selection = None, crop_isActive = False \<rparr>,
       layerSidebarVisible = False, darkMode = False, isLoading = False \<rparr>"

definition generateId :: "nat \<Rightarrow> string \<Rightarrow> string" where
  "generateId t rnd = ''img_'' @ show_nat t @ ''_'' @ rnd"

definition createHistoryStep :: "Env \<Rightarrow> HistoryAction \<Rightarrow> string \<Rightarrow> ImageItem list \<Rightarrow> HistoryStep" where
  "createHistoryStep e act desc imgs =
     \<lparr> step_id = generateId (env_stepIdNow e) (env_stepIdRnd e), step_action = act,
       step_timestamp = env_stepTime e, step_description = desc, step_images = imgs \<rparr>"

text \<open>
  The three statements every appending case repeats:
  \<^verbatim>\<open>history = history.slice(0, historyIndex + 1); history.push(step); historyIndex = history.length - 1\<close>.
\<close>

definition pushHistory :: "Env \<Rightarrow> HistoryAction \<Rightarrow> string \<Rightarrow> AppState \<Rightarrow> AppState" where
  "pushHistory e act desc s =
     (let h = sliceTo (history s) (historyIndex s + 1) @ [createHistoryStep e act desc (images s)]
      in s\<lparr>history := h, historyIndex := int (length h) - 1\<rparr>)"

text \<open>
  The cap that \<^verbatim>\<open>ADD_IMAGE\<close>, \<^verbatim>\<open>ADD_HISTORY_STEP\<close> and \<^verbatim>\<open>REORDER_LAYER\<close> run after
  the push: \<^verbatim>\<open>if (history.length > 100) { history.shift(); historyIndex--; }\<close>.
\<close>

definition capHistory :: "AppState \<Rightarrow> AppState" where
  "capHistory s =
     (if length (history s) > 100
      then s\<lparr>history := tl (history s), historyIndex := historyIndex s - 1\<rparr>
      else s)"

text \<open>The description literals of the source, as their UTF-8 bytes.\<close>

definition desc_add :: string where
  "desc_add = map char_of
     [0xE7, 0x94, 0xBB, 0xE5, 0x83, 0x8F, 0xE3, 0x82, 0x92, 0xE8, 0xBF, 0xBD, 0xE5, 0x8A, 0xA0 :: nat]"

definition desc_delete :: string where
  "desc_delete = map char_of
     [0xE7, 0x94, 0xBB, 0xE5, 0x83, 0x8F, 0xE3, 0x82, 0x92, 0xE5, 0x89, 0x8A, 0xE9, 0x99, 0xA4 :: nat]"

definition desc_crop :: string where
  "desc_crop = map char_of
     [0xE7, 0x94, 0xBB, 0xE5, 0x83, 0x8F, 0xE3, 0x82, 0x92, 0xE3, 0x83, 0x88, 0xE3, 0x83, 0xAA,
      0xE3, 0x83, 0x9F, 0xE3, 0x83, 0xB3, 0xE3, 0x82, 0xB0 :: nat]"

definition desc_reorder :: string where
  "desc_reorder = map char_of
     [0xE3, 0x83, 0xAC, 0xE3, 0x82, 0xA4, 0xE3, 0x83, 0xA4, 0xE3, 0x83, 0xBC, 0xE9, 0xA0, 0x86,
      0xE5, 0xBA, 0x8F, 0xE3, 0x82, 0x92, 0xE5, 0xA4, 0x89, 0xE6, 0x9B, 0xB4 :: nat]"

definition desc_toggle :: string where
  "desc_toggle = map char_of
     [0xE8, 0xA1, 0xA8, 0xE7, 0xA4, 0xBA, 0x2F, 0xE9, 0x9D, 0x9E, 0xE8, 0xA1, 0xA8, 0xE7, 0xA4,
      0xBA, 0xE3, 0x82, 0x92, 0xE5, 0x88, 0x87, 0xE6, 0x9B, 0xBF :: nat]"

text \<open>\<^verbatim>\<open>parseInt(img.id.split('_')[1])\<close>: the creation time an id carries.\<close>

definition idTime :: "string \<Rightarrow> int option" where
  "idTime i = parseInt_opt (nth_opt (split_on CHR ''_'' i) 1)"

definition isVeryRecentDuplicate :: "nat \<Rightarrow> ImagePayload \<Rightarrow> ImageItem \<Rightarrow> bool" where
  "isVeryRecentDuplicate now p img =
     (img_src img = p_src p \<and> img_x img = p_x p \<and> img_y img = p_y p \<and>
      (case idTime (img_id img) of None \<Rightarrow> False | Some t \<Rightarrow> int now - t < 50))"

definition isDuplicate :: "Env \<Rightarrow> ImagePayload \<Rightarrow> ImageItem list \<Rightarrow> bool" where
  "isDuplicate e p imgs = list_ex (isVeryRecentDuplicate (env_now e) p) (sliceLast imgs)"

definition newImage :: "Env \<Rightarrow> ImagePayload \<Rightarrow> AppState \<Rightarrow> ImageItem" where
  "newImage e p s =
     \<lparr> img_id = generateId (env_imgIdNow e) (env_imgIdRnd e), img_src = p_src p,
       img_x = p_x p, img_y = p_y p, img_width = p_width p, img_height = p_height p,
       img_originalWidth = p_originalWidth p, img_originalHeight = p_originalHeight p,
       img_zIndex = real (length (images s)), img_visible = p_visible p,
       img_aspectRatioLocked = aspectRatioLocked s,
       img_rotation = p_rotation p, img_opacity = p_opacity p \<rparr>"

definition addImage :: "Env \<Rightarrow> ImagePayload \<Rightarrow> AppState \<Rightarrow> AppState" where
  "addImage e p s =
     (if isDuplicate e p (images s) then s
      else capHistory (pushHistory e AddImage desc_add
             (s\<lparr>images := images s @ [newImage e p s],
                selectedImageId := Some (img_id (newImage e p s))\<rparr>)))"

text \<open>\<^verbatim>\<open>images.forEach((img, index) => { img.zIndex = index; })\<close>.\<close>

fun reindex :: "nat \<Rightarrow> ImageItem list \<Rightarrow> ImageItem list" where
  "reindex k [] = []"
| "reindex k (a # as) = a\<lparr>img_zIndex := real k\<rparr> # reindex (Suc k) as"

definition deleteImage :: "Env \<Rightarrow> string \<Rightarrow> AppState \<Rightarrow> AppState" where
  "deleteImage e i s =
     (case findIndex (\<lambda>img. img_id img = i) (images s) of
        None \<Rightarrow> s
      | Some k \<Rightarrow>
          pushHistory e DeleteImage desc_delete
            (s\<lparr>images := reindex 0 (splice1 k (images s)),
               selectedImageId := (if selectedImageId s = Some i then None else selectedImageId s)\<rparr>))"

text \<open>\<^verbatim>\<open>Object.assign(image, updates)\<close>: every key present in the updates is copied.\<close>

definition assignImage :: "ImageUpdates \<Rightarrow> ImageItem \<Rightarrow> ImageItem" where
  "assignImage u a =
     \<lparr> img_id = (case u_id u of None \<Rightarrow> img_id a | Some v \<Rightarrow> v),
       img_src = (case u_src u of None \<Rightarrow> img_src a | Some v \<Rightarrow> v),
       img_x = (case u_x u of None \<Rightarrow> img_x a | Some v \<Rightarrow> v),
       img_y = (case u_y u of None \<Rightarrow> img_y a | Some v \<Rightarrow> v),
       img_width = (case u_width u of None \<Rightarrow> img_width a | Some v \<Rightarrow> v),
       img_height = (case u_height u of None \<Rightarrow> img_height a | Some v \<Rightarrow> v),
       img_originalWidth = (case u_originalWidth u of None \<Rightarrow> img_originalWidth a | Some v \<Rightarrow> v),
       img_originalHeight = (case u_originalHeight u of None \<Rightarrow> img_originalHeight a | Some v \<Rightarrow> v),
       img_zIndex = (case u_zIndex u of None \<Rightarrow> img_zIndex a | Some v \<Rightarrow> v),
       img_visible = (case u_visible u of None \<Rightarrow> img_visible a | Some v \<Rightarrow> v),
       img_aspectRatioLocked = (case u_aspectRatioLocked u of None \<Rightarrow> img_aspectRatioLocked a | Some v \<Rightarrow> v),
       img_rotation = (case u_rotation u of None \<Rightarrow> img_rotation a | Some v \<Rightarrow> v),
       img_opacity = (case u_opacity u of None \<Rightarrow> img_opacity a | Some v \<Rightarrow> v) \<rparr>"

definition updateImage :: "string \<Rightarrow> ImageUpdates \<Rightarrow> AppState \<Rightarrow> AppState" where
  "updateImage i u s =
     (case findIndex (\<lambda>img. img_id img = i) (images s) of
        None \<Rightarrow> s
      | Some k \<Rightarrow> s\<lparr>images := (images s)[k := assignImage u (images s ! k)]\<rparr>)"

text \<open>
  \<^verbatim>\<open>UNDO\<close> and \<^verbatim>\<open>REDO\<close>. \<^verbatim>\<open>history[historyIndex]\<close> is \<^verbatim>\<open>undefined\<close>
  outside the array, and reading \<^verbatim>\<open>step.images\<close> then throws.
\<close>

definition undo :: "AppState \<Rightarrow> error + AppState" where
  "undo s =
     (if historyIndex s > 0
      then (let k = historyIndex s - 1 in
            if k < int (length (history s))
            then Inr (s\<lparr>historyIndex := k, images := step_images (history s ! nat k)\<rparr>)
            else Inl TypeError)
      else Inr s)"

definition redo :: "AppState \<Rightarrow> error + AppState" where
  "redo s =
     (if historyIndex s < int (length (history s)) - 1
      then (let k = historyIndex s + 1 in
            if 0 \<le> k
            then Inr (s\<lparr>historyIndex := k, images := step_images (history s ! nat k)\<rparr>)
            else Inl TypeError)
      else Inr s)"

definition addHistoryStep :: "Env \<Rightarrow> HistoryAction \<Rightarrow> string \<Rightarrow> AppState \<Rightarrow> AppState" where
  "addHistoryStep e act desc s = capHistory (pushHistory e act desc s)"

definition clearCrop :: "AppState \<Rightarrow> AppState" where
  "clearCrop s = s\<lparr>cropState := \<lparr> crop_imageId = None, crop_selection = None, crop_isActive = False \<rparr>\<rparr>"

text \<open>
  \<^verbatim>\<open>APPLY_CROP\<close>. The guard \<^verbatim>\<open>cropState.imageId && cropState.selection\<close> tests
  truthiness: the empty string fails it as \<^verbatim>\<open>null\<close> does.
\<close>

definition cropImage :: "CropSelection \<Rightarrow> ImageItem \<Rightarrow> ImageItem" where
  "cropImage sel a =
     a\<lparr>img_width := sel_width sel, img_height := sel_height sel,
       img_x := img_x a + sel_x sel, img_y := img_y a + sel_y sel\<rparr>"

definition applyCrop :: "Env \<Rightarrow> AppState \<Rightarrow> AppState" where
  "applyCrop e s =
     clearCrop
       (case crop_imageId (cropState s) of
          None \<Rightarrow> s
        | Some i \<Rightarrow>
            if i = [] then s
            else (case crop_selection (cropState s) of
                    None \<Rightarrow> s
                  | Some sel \<Rightarrow>
                      (case findIndex (\<lambda>img. img_id img = i) (images s) of
                         None \<Rightarrow> s
                       | Some k \<Rightarrow>
                           pushHistory e CropImage desc_crop
                             (s\<lparr>images := (images s)[k := cropImage sel (images s ! k)]\<rparr>))))"

text \<open>
  \<^verbatim>\<open>REORDER_LAYER\<close>, first phase: the target takes the new zIndex, and every image
  with another id is shifted when it lies between the old and the new value.
\<close>

definition shiftOther :: "string \<Rightarrow> real \<Rightarrow> real \<Rightarrow> ImageItem \<Rightarrow> ImageItem" where
  "shiftOther i oldZ newZ a =
     (if img_id a \<noteq> i
      then (if oldZ < newZ
            then (if img_zIndex a \<le> newZ \<and> img_zIndex a > oldZ
                  then a\<lparr>img_zIndex := img_zIndex a - 1\<rparr> else a)
            else (if img_zIndex a \<ge> newZ \<and> img_zIndex a < oldZ
                  then a\<lparr>img_zIndex := img_zIndex a + 1\<rparr> else a))
      else a)"

text \<open>
  Second phase: \<^verbatim>\<open>[...images].sort((a, b) => a.zIndex - b.zIndex)\<close> is a stable
  sort of references to the same image objects, so the \<^verbatim>\<open>forEach\<close> that follows
  writes the rank of each into the collection itself. The references are the
  positions in the collection.
\<close>

definition sortedRefs :: "ImageItem list \<Rightarrow> nat list" where
  "sortedRefs imgs = sort_key (\<lambda>k. img_zIndex (imgs ! k)) [0..<length imgs]"

fun assignRanks :: "nat \<Rightarrow> nat list \<Rightarrow> ImageItem list \<Rightarrow> ImageItem list" where
  "assignRanks r [] imgs = imgs"
| "assignRanks r (k # ks) imgs = assignRanks (Suc r) ks (imgs[k := (imgs ! k)\<lparr>img_zIndex := real r\<rparr>])"

definition normalizeZ :: "ImageItem list \<Rightarrow> ImageItem list" where
  "normalizeZ imgs = assignRanks 0 (sortedRefs imgs) imgs"

definition reorderLayer :: "Env \<Rightarrow> string \<Rightarrow> real \<Rightarrow> AppState \<Rightarrow> AppState" where
  "reorderLayer e i newZ s =
     (case findIndex (\<lambda>img. img_id img = i) (images s) of
        None \<Rightarrow> s
      | Some k \<Rightarrow>
          (let oldZ = img_zIndex (images s ! k);
               set1 = (images s)[k := (images s ! k)\<lparr>img_zIndex := newZ\<rparr>];
               shifted = map (shiftOther i oldZ newZ) set1
           in capHistory (pushHistory e ReorderLayer desc_reorder
                (s\<lparr>images := normalizeZ shifted\<rparr>))))"

definition toggleLayerVisibility :: "Env \<Rightarrow> string \<Rightarrow> AppState \<Rightarrow> AppState" where
  "toggleLayerVisibility e i s =
     (case findIndex (\<lambda>img. img_id img = i) (images s) of
        None \<Rightarrow> s
      | Some k \<Rightarrow>
          pushHistory e ToggleVisibility desc_toggle
            (s\<lparr>images := (images s)[k := (images s ! k)\<lparr>img_visible := \<not> img_visible (images s ! k)\<rparr>]\<rparr>))"

text \<open>\<^verbatim>\<open>Object.assign(draft, payload)\<close> of \<^verbatim>\<open>LOAD_STATE\<close>.\<close>

definition loadState :: "StatePatch \<Rightarrow> AppState \<Rightarrow> AppState" where
  "loadState l s =
     \<lparr> images = (case l_images l of None \<Rightarrow> images s | Some v \<Rightarrow> v),
       selectedImageId = (case l_selectedImageId l of None \<Rightarrow> selectedImageId s | Some v \<Rightarrow> v),
       dragMode = (case l_dragMode l of None \<Rightarrow> dragMode s | Some v \<Rightarrow> v),
       aspectRatioLocked = (case l_aspectRatioLocked l of None \<Rightarrow> aspectRatioLocked s | Some v \<Rightarrow> v),
       history = (case l_history l of None \<Rightarrow> history s | Some v \<Rightarrow> v),
       historyIndex = (case l_historyIndex l of None \<Rightarrow> historyIndex s | Some v \<Rightarrow> v),
       cropState = (case l_cropState l of None \<Rightarrow> cropState s | Some v \<Rightarrow> v),
       layerSidebarVisible = (case l_layerSidebarVisible l of None \<Rightarrow> layerSidebarVisible s | Some v \<Rightarrow> v),
       darkMode = (case l_darkMode l of None \<Rightarrow> darkMode s | Some v \<Rightarrow> v),
       isLoading = (case l_isLoading l of None \<Rightarrow> isLoading s | Some v \<Rightarrow> v) \<rparr>"

fun imageReducer :: "Env \<Rightarrow> AppState \<Rightarrow> Action \<Rightarrow> error + AppState" where
  "imageReducer e s (ADD_IMAGE p) = Inr (addImage e p s)"
| "imageReducer e s (DELETE_IMAGE i) = Inr (deleteImage e i s)"
| "imageReducer e s (UPDATE_IMAGE i u) = Inr (updateImage i u s)"
| "imageReducer e s (SELECT_IMAGE v) = Inr (s\<lparr>selectedImageId := v\<rparr>)"
| "imageReducer e s (SET_DRAG_MODE m) = Inr (s\<lparr>dragMode := m\<rparr>)"
| "imageReducer e s TOGGLE_ASPECT_RATIO_LOCK = Inr (s\<lparr>aspectRatioLocked := \<not> aspectRatioLocked s\<rparr>)"
| "imageReducer e s (SET_ASPECT_RATIO_LOCK b) = Inr (s\<lparr>aspectRatioLocked := b\<rparr>)"
| "imageReducer e s UNDO = undo s"
| "imageReducer e s REDO = redo s"
| "imageReducer e s (ADD_HISTORY_STEP act desc) = Inr (addHistoryStep e act desc s)"
| "imageReducer e s (START_CROP i) =
     Inr (s\<lparr>cropState := \<lparr> crop_imageId = Some i, crop_selection = None, crop_isActive = True \<rparr>\<rparr>)"
| "imageReducer e s (UPDATE_CROP_SELECTION sel) =
     Inr (s\<lparr>cropState := (cropState s)\<lparr>crop_selection := Some sel\<rparr>\<rparr>)"
| "imageReducer e s APPLY_CROP = Inr (applyCrop e s)"
| "imageReducer e s CANCEL_CROP = Inr (clearCrop s)"
| "imageReducer e s (REORDER_LAYER i z) = Inr (reorderLayer e i z s)"
| "imageReducer e s (TOGGLE_LAYER_VISIBILITY i) = Inr (toggleLayerVisibility e i s)"
| "imageReducer e s TOGGLE_LAYER_SIDEBAR = Inr (s\<lparr>layerSidebarVisible := \<not> layerSidebarVisible s\<rparr>)"
| "imageReducer e s (SET_LAYER_SIDEBAR b) = Inr (s\<lparr>layerSidebarVisible := b\<rparr>)"
| "imageReducer e s TOGGLE_DARK_MODE = Inr (s\<lparr>darkMode := \<not> darkMode s\<rparr>)"
| "imageReducer e s (SET_DARK_MODE b) = Inr (s\<lparr>darkMode := b\<rparr>)"
| "imageReducer e s (SET_LOADING b) = Inr (s\<lparr>isLoading := b\<rparr>)"
| "imageReducer e s (LOAD_STATE l) = Inr (loadState l s)"
| "imageReducer e s RESET_STATE = Inr initialState"

text \<open>
  A sequence of dispatched actions, each with what its call reads from the clock
  and the random source; the first exception ends the run.
\<close>

fun run :: "AppState \<Rightarrow> (Env \<times> Action) list \<Rightarrow> error + AppState" where
  "run s [] = Inr s"
| "run s (ea # rest) =
     (case imageReducer (fst ea) s (snd ea) of Inl err \<Rightarrow> Inl err | Inr s' \<Rightarrow> run s' rest)"

subsection \<open>The resize computation (\<^verbatim>\<open>DraggableImage.tsx\<close>, \<^verbatim>\<open>handleResize\<close>)\<close>





text \<open>The four locals \<^verbatim>\<open>newX, newY, newWidth, newHeight\<close>, and the update they end in.\<close>

record Geometry =
  g_x :: real
  g_y :: real
  g_width :: real
  g_height :: real









text \<open>\<^verbatim>\<open>newWidth = Math.max(50, newWidth); newHeight = Math.max(50, newHeight)\<close>.\<close>

definition floorSize :: "Geometry \<Rightarrow> Geometry" where
  "floorSize g = g\<lparr>g_width := max 50 (g_width g), g_height := max 50 (g_height g)\<rparr>"



subsection \<open>Vocabulary of the properties\<close>

text \<open>What a finished run shows: its image collection, and the length of its history.\<close>

definition imagesOf :: "error + AppState \<Rightarrow> ImageItem list option" where
  "imagesOf r = (case r of Inl _ \<Rightarrow> None | Inr s \<Rightarrow> Some (images s))"

definition historyLengthOf :: "error + AppState \<Rightarrow> nat option" where
  "historyLengthOf r = (case r of Inl _ \<Rightarrow> None | Inr s \<Rightarrow> Some (length (history s)))"

definition layersOf :: "error + AppState \<Rightarrow> (string \<times> real) list option" where
  "layersOf r = map_option (map (\<lambda>a. (img_id a, img_zIndex a))) (imagesOf r)"

definition cropStateOf :: "error + AppState \<Rightarrow> CropState option" where
  "cropStateOf r = (case r of Inl _ \<Rightarrow> None | Inr s \<Rightarrow> Some (cropState s))"

definition selectionOf :: "error + AppState \<Rightarrow> string option option" where
  "selectionOf r = (case r of Inl _ \<Rightarrow> None | Inr s \<Rightarrow> Some (selectedImageId s))"

text \<open>The six kinds of action whose case pushes a history step.\<close>

fun appendingKind :: "Action \<Rightarrow> bool" where
  "appendingKind (ADD_IMAGE p) = True"
| "appendingKind (DELETE_IMAGE i) = True"
| "appendingKind (REORDER_LAYER i z) = True"
| "appendingKind (TOGGLE_LAYER_VISIBILITY i) = True"
| "appendingKind APPLY_CROP = True"
| "appendingKind (ADD_HISTORY_STEP act desc) = True"
| "appendingKind a = False"

definition hasImage :: "string \<Rightarrow> AppState \<Rightarrow> bool" where
  "hasImage i s = (findIndex (\<lambda>img. img_id img = i) (images s) \<noteq> None)"

text \<open>The guard of \<^verbatim>\<open>APPLY_CROP\<close>: a truthy target that is found, and a selection.\<close>

definition cropReady :: "AppState \<Rightarrow> bool" where
  "cropReady s =
     (case crop_imageId (cropState s) of
        None \<Rightarrow> False
      | Some i \<Rightarrow> i \<noteq> [] \<and> crop_selection (cropState s) \<noteq> None \<and> hasImage i s)"

text \<open>
  An action of an appending kind pushes its step only when its guard passes: the add is
  not a duplicate, the addressed image is found, the crop is ready.
\<close>

fun appends :: "Env \<Rightarrow> AppState \<Rightarrow> Action \<Rightarrow> bool" where
  "appends e s (ADD_IMAGE p) = (\<not> isDuplicate e p (images s))"
| "appends e s (DELETE_IMAGE i) = hasImage i s"
| "appends e s (REORDER_LAYER i z) = hasImage i s"
| "appends e s (TOGGLE_LAYER_VISIBILITY i) = hasImage i s"
| "appends e s APPLY_CROP = cropReady s"
| "appends e s (ADD_HISTORY_STEP act desc) = True"
| "appends e s a = False"


text \<open>The cursor is on the last step, and that step holds the collection on display.\<close>

definition tipped :: "AppState \<Rightarrow> bool" where
  "tipped s =
     (history s \<noteq> [] \<and> historyIndex s = int (length (history s)) - 1
      \<and> step_images (last (history s)) = images s)"


text \<open>The zIndex values of a collection of \<open>N\<close> images are \<open>0, ..., N - 1\<close>, each once.\<close>

definition dense :: "ImageItem list \<Rightarrow> bool" where
  "dense imgs = (mset (map img_zIndex imgs) = mset (map real [0..<length imgs]))"

definition allDense :: "AppState \<Rightarrow> bool" where
  "allDense s = (dense (images s) \<and> list_all (\<lambda>st. dense (step_images st)) (history s))"

text \<open>
  Actions that cannot write a zIndex from outside: an \<^verbatim>\<open>UPDATE_IMAGE\<close> whose updates
  have no \<^verbatim>\<open>zIndex\<close> key, a \<^verbatim>\<open>LOAD_STATE\<close> with neither \<^verbatim>\<open>images\<close> nor
  \<^verbatim>\<open>history\<close>, and every other action.
\<close>

fun zsafe :: "Action \<Rightarrow> bool" where
  "zsafe (UPDATE_IMAGE i u) = (u_zIndex u = None)"
| "zsafe (LOAD_STATE l) = (l_images l = None \<and> l_history l = None)"
| "zsafe a = True"

text \<open>The selection is null or names an image of the collection.\<close>

definition selectionValid :: "AppState \<Rightarrow> bool" where
  "selectionValid s = (case selectedImageId s of None \<Rightarrow> True | Some i \<Rightarrow> hasImage i s)"

text \<open>
  Actions that keep a valid selection valid. Excluded are \<^verbatim>\<open>UNDO\<close> and \<^verbatim>\<open>REDO\<close>
  (they replace the collection and keep the selection), a \<^verbatim>\<open>SELECT_IMAGE\<close> of an id
  that no image has, an \<^verbatim>\<open>UPDATE_IMAGE\<close> that rewrites an id, and a \<^verbatim>\<open>LOAD_STATE\<close>
  that brings a collection or a selection.
\<close>

fun selSafe :: "AppState \<Rightarrow> Action \<Rightarrow> bool" where
  "selSafe s UNDO = False"
| "selSafe s REDO = False"
| "selSafe s (SELECT_IMAGE v) = (case v of None \<Rightarrow> True | Some i \<Rightarrow> hasImage i s)"
| "selSafe s (UPDATE_IMAGE i u) = (u_id u = None)"
| "selSafe s (LOAD_STATE l) = (l_images l = None \<and> l_selectedImageId l = None)"
| "selSafe s a = True"

fun selSafeRun :: "AppState \<Rightarrow> (Env \<times> Action) list \<Rightarrow> bool" where
  "selSafeRun s [] = True"
| "selSafeRun s (ea # rest) =
     (selSafe s (snd ea) \<and>
      (case imageReducer (fst ea) s (snd ea) of Inl err \<Rightarrow> True | Inr s' \<Rightarrow> selSafeRun s' rest))"


text \<open>The cursor is \<open>-1\<close> on an empty history, or the index of one of its steps.\<close>

definition cursorInRange :: "AppState \<Rightarrow> bool" where
  "cursorInRange s = (- 1 \<le> historyIndex s \<and> historyIndex s < int (length (history s)))"

text \<open>Every action but a \<^verbatim>\<open>LOAD_STATE\<close> that brings a history or a cursor.\<close>

fun keepsCursor :: "Action \<Rightarrow> bool" where
  "keepsCursor (LOAD_STATE l) = (l_history l = None \<and> l_historyIndex l = None)"
| "keepsCursor a = True"

text \<open>
  Every action whose case cannot grow the history past the cap: all but the three that
  push without it, and a \<^verbatim>\<open>LOAD_STATE\<close> that brings a history or a cursor.
\<close>

fun capsHistory :: "Action \<Rightarrow> bool" where
  "capsHistory (DELETE_IMAGE i) = False"
| "capsHistory (TOGGLE_LAYER_VISIBILITY i) = False"
| "capsHistory APPLY_CROP = False"
| "capsHistory (LOAD_STATE l) = (l_history l = None \<and> l_historyIndex l = None)"
| "capsHistory a = True"

text \<open>Example inputs: a clock that does not tick within one call, and a plain payload.\<close>

definition mkEnv :: "nat \<Rightarrow> string \<Rightarrow> Env" where
  "mkEnv t r =
     \<lparr> env_now = t, env_imgIdNow = t, env_imgIdRnd = r,
       env_stepIdNow = t, env_stepIdRnd = r, env_stepTime = t \<rparr>"

definition mkPayload :: "string \<Rightarrow> real \<Rightarrow> real \<Rightarrow> real \<Rightarrow> real \<Rightarrow> ImagePayload" where
  "mkPayload s px py w h =
     \<lparr> p_src = s, p_x = px, p_y = py, p_width = w, p_height = h,
       p_originalWidth = w, p_originalHeight = h, p_visible = True,
       p_aspectRatioLocked = False, p_rotation = None, p_opacity = None \<rparr>"

definition envA :: Env where "envA = mkEnv 1000 ''a''"
definition envB :: Env where "envB = mkEnv 2000 ''b''"
definition envC :: Env where "envC = mkEnv 3000 ''c''"
definition envA' :: Env where "envA' = mkEnv 1020 ''d''"

definition payA :: ImagePayload where "payA = mkPayload ''data:A'' 0 0 100 100"
definition payB :: ImagePayload where "payB = mkPayload ''data:B'' 10 10 50 50"
definition payC :: ImagePayload where "payC = mkPayload ''data:C'' 20 20 60 60"

definition idA :: string where "idA = generateId 1000 ''a''"
definition idB :: string where "idB = generateId 2000 ''b''"
definition idC :: string where "idC = generateId 3000 ''c''"

text \<open>The document after one image has been added to the empty one.\<close>

definition docA :: AppState where
  "docA = addImage envA payA initialState"

definition imgA :: ImageItem where "imgA = newImage envA payA initialState"
definition imgB :: ImageItem where "imgB = newImage envB payB docA"

definition docAB :: AppState where
  "docAB = addImage envB payB docA"

definition imgC :: ImageItem where "imgC = newImage envC payC docAB"

definition docABC :: AppState where
  "docABC = addImage envC payC docAB"

definition envD :: Env where "envD = mkEnv 4000 ''d''"
definition envE :: Env where "envE = mkEnv 5000 ''e''"

definition noUpdates :: ImageUpdates where
  "noUpdates =
     \<lparr> u_id = None, u_src = None, u_x = None, u_y = None, u_width = None, u_height = None,
       u_originalWidth = None, u_originalHeight = None, u_zIndex = None, u_visible = None,
       u_aspectRatioLocked = None, u_rotation = None, u_opacity = None \<rparr>"





definition selA :: CropSelection where
  "selA = \<lparr> sel_x = 10, sel_y = 5, sel_width = 40, sel_height = 30 \<rparr>"

text \<open>The one-image document with a crop of that image under way.\<close>

definition cropDoc :: AppState where
  "cropDoc = docA\<lparr>cropState := \<lparr> crop_imageId = Some idA, crop_selection = Some selA, crop_isActive = True \<rparr>\<rparr>"

text \<open>One add, then the image's id is rewritten to the empty string and a crop of it is started.\<close>

definition emptyIdOps :: "(Env \<times> Action) list" where
  "emptyIdOps =
     [(envA, ADD_IMAGE payA), (envB, UPDATE_IMAGE idA (noUpdates\<lparr>u_id := Some []\<rparr>)),
      (envB, START_CROP []), (envB, UPDATE_CROP_SELECTION selA)]"

section \<open>Properties\<close>

subsection \<open>Identifiers carry their creation time\<close>

lemma digit_val_digit_char: "d < 10 \<Longrightarrow> digit_val (digit_char d) = d"
  by (simp add: digit_val_def digit_char_def)

lemma of_char_digit_char: "d < 10 \<Longrightarrow> (of_char (digit_char d) :: nat) = 48 + d"
  by (simp add: digit_char_def)

lemma is_digit_digit_char: "d < 10 \<Longrightarrow> is_digit (digit_char d)"
  by (simp add: is_digit_def of_char_digit_char)

lemma is_digit_val: "is_digit c \<Longrightarrow> digit_val c < 10"
  by (auto simp add: is_digit_def digit_val_def Let_def)

lemma is_digit_not_ws: "is_digit c \<Longrightarrow> \<not> is_ws c"
  by (auto simp add: is_digit_def is_ws_def)

lemma is_digit_neq:
  assumes "is_digit c" "(of_char d :: nat) < 48 \<or> 57 < (of_char d :: nat)"
  shows "c \<noteq> d"
  using assms by (auto simp add: is_digit_def)

lemma is_digit_plain:
  assumes "is_digit c"
  shows "c \<noteq> CHR ''-''" "c \<noteq> CHR ''+''" "c \<noteq> CHR ''x''" "c \<noteq> CHR ''X''" "c \<noteq> CHR ''_''"
  by (rule is_digit_neq [OF assms], simp)+

lemma show_nat_all_digits: "list_all is_digit (show_nat n)"
proof (induction n rule: show_nat.induct)
  case (1 n)
  show ?case
  proof (cases "n < 10")
    case True
    then show ?thesis
      by (simp add: show_nat.simps [of n] is_digit_digit_char)
  next
    case False
    have "n mod 10 < 10" by simp
    with False 1 show ?thesis
      by (simp add: show_nat.simps [of n] is_digit_digit_char)
  qed
qed

lemma show_nat_nonempty: "show_nat n \<noteq> []"
  by (simp add: show_nat.simps [of n])

lemma show_nat_value: "foldl (\<lambda>a c. a * 10 + digit_val c) 0 (show_nat n) = n"
proof (induction n rule: show_nat.induct)
  case (1 n)
  show ?case
  proof (cases "n < 10")
    case True
    then show ?thesis by (simp add: show_nat.simps [of n] digit_val_digit_char)
  next
    case False
    with 1 show ?thesis by (simp add: show_nat.simps [of n] digit_val_digit_char)
  qed
qed

lemma parseInt_digits:
  assumes "s \<noteq> []" "list_all is_digit s"
  shows "parseInt s = Some (int (foldl (\<lambda>a c. a * 10 + digit_val c) 0 s))"
proof -
  obtain c r where s: "s = c # r" using assms(1) by (cases s) auto
  have c: "is_digit c" using assms(2) by (simp add: s)
  have dw: "dropWhile is_ws s = s" using is_digit_not_ws [OF c] by (simp add: s)
  have ss: "strip_sign s = (False, s)" using is_digit_plain [OF c] by (simp add: s strip_sign_def)
  have sr: "strip_radix s = (10, s)"
  proof (cases r)
    case Nil
    then show ?thesis by (simp add: s strip_radix_def)
  next
    case (Cons b r')
    then have "is_digit b" using assms(2) by (simp add: s)
    then show ?thesis using is_digit_plain [of b] by (simp add: s Cons strip_radix_def)
  qed
  have tw: "takeWhile (\<lambda>c. digit_val c < 10) s = s"
    using assms(2) by (auto simp: list_all_iff is_digit_val)
  show ?thesis using assms(1) by (simp add: parseInt_def dw ss sr tw)
qed

lemma parseInt_show_nat: "parseInt (show_nat n) = Some (int n)"
  by (simp add: parseInt_digits show_nat_nonempty show_nat_all_digits show_nat_value)

lemma split_on_append:
  "c \<notin> set xs \<Longrightarrow> split_on c (xs @ c # ys) = xs # split_on c ys"
  by (induction xs) auto

lemma idTime_generateId: "idTime (generateId t r) = Some (int t)"
proof -
  have a: "CHR ''_'' \<notin> set ''img''" by simp
  have b: "CHR ''_'' \<notin> set (show_nat t)"
    using show_nat_all_digits [of t] is_digit_plain(5) by (auto simp: list_all_iff)
  have "generateId t r = ''img'' @ CHR ''_'' # (show_nat t @ CHR ''_'' # r)"
    by (simp add: generateId_def)
  then have "split_on CHR ''_'' (generateId t r) = ''img'' # show_nat t # split_on CHR ''_'' r"
    using split_on_append [OF a] split_on_append [OF b] by simp
  then show ?thesis by (simp add: idTime_def nth_opt_def parseInt_opt_def parseInt_show_nat)
qed

subsection \<open>Pushing and capping the history\<close>

lemma pushHistory_fields [simp]:
  "images (pushHistory e a d s) = images s"
  "selectedImageId (pushHistory e a d s) = selectedImageId s"
  "aspectRatioLocked (pushHistory e a d s) = aspectRatioLocked s"
  "cropState (pushHistory e a d s) = cropState s"
  by (simp_all add: pushHistory_def Let_def)

lemma history_pushHistory:
  "history (pushHistory e a d s) =
     sliceTo (history s) (historyIndex s + 1) @ [createHistoryStep e a d (images s)]"
  by (simp add: pushHistory_def Let_def)

lemma historyIndex_pushHistory:
  "historyIndex (pushHistory e a d s) = int (length (history (pushHistory e a d s))) - 1"
  by (simp add: pushHistory_def Let_def)

lemma capHistory_fields [simp]:
  "images (capHistory s) = images s"
  "selectedImageId (capHistory s) = selectedImageId s"
  "aspectRatioLocked (capHistory s) = aspectRatioLocked s"
  "cropState (capHistory s) = cropState s"
  by (simp_all add: capHistory_def)

subsection \<open>\<^verbatim>\<open>ADD_IMAGE\<close>\<close>

lemma isDuplicate_Nil [simp]: "\<not> isDuplicate e p []"
  by (simp add: isDuplicate_def sliceLast_def)

lemma isDuplicate_last:
  "imgs \<noteq> [] \<Longrightarrow> isDuplicate e p imgs = isVeryRecentDuplicate (env_now e) p (last imgs)"
proof -
  assume "imgs \<noteq> []"
  then obtain xs a where "imgs = xs @ [a]" by (metis rev_exhaust)
  then show ?thesis by (simp add: isDuplicate_def sliceLast_def)
qed

text \<open>
  Claim C10. An \<^verbatim>\<open>ADD_IMAGE\<close> that the duplicate guard lets through stores an image
  whose \<^verbatim>\<open>aspectRatioLocked\<close> is the document's global flag at that moment, whatever
  the payload carried for it.
\<close>

theorem addImage_takes_global_lock:
  assumes "\<not> isDuplicate e p (images s)"
  shows "\<exists>s'. imageReducer e s (ADD_IMAGE p) = Inr s'
           \<and> images s' = images s @ [newImage e p s]
           \<and> img_aspectRatioLocked (last (images s')) = aspectRatioLocked s"
  using assms by (simp add: addImage_def newImage_def)

theorem addImage_takes_global_lock_witness:
  "\<not> isDuplicate envA payA (images initialState)
   \<and> p_aspectRatioLocked payA = False
   \<and> aspectRatioLocked initialState = True
   \<and> (\<exists>s'. imageReducer envA initialState (ADD_IMAGE payA) = Inr s'
           \<and> images s' = images initialState @ [newImage envA payA initialState]
           \<and> img_aspectRatioLocked (last (images s')) = True)"
proof -
  have h: "\<not> isDuplicate envA payA (images initialState)"
    by (simp add: initialState_def)
  show ?thesis
    using h addImage_takes_global_lock [OF h]
    by (clarsimp simp add: initialState_def mkPayload_def payA_def)
qed

text \<open>
  Claim C8. The most recently added image is the last one of the collection, and the
  time it was created is the time its id carries. An \<^verbatim>\<open>ADD_IMAGE\<close> with the same
  \<^verbatim>\<open>src\<close>, \<^verbatim>\<open>x\<close> and \<^verbatim>\<open>y\<close> that arrives less than 50 ms after it
  returns the state as it was (collection, selection, history and cursor with it).
  When the collection is empty, or the last image differs in \<^verbatim>\<open>src\<close>, \<^verbatim>\<open>x\<close> or
  \<^verbatim>\<open>y\<close> (older images are never looked at), or it was created 50 ms ago or
  more, the image is added and selected.
\<close>

theorem addImage_duplicate_guard:
  "(images s \<noteq> [] \<and> img_id (last (images s)) = generateId t r
      \<and> img_src (last (images s)) = p_src p \<and> img_x (last (images s)) = p_x p
      \<and> img_y (last (images s)) = p_y p \<and> int (env_now e) - int t < 50
     \<longrightarrow> imageReducer e s (ADD_IMAGE p) = Inr s)
   \<and> (images s = [] \<or> img_src (last (images s)) \<noteq> p_src p \<or> img_x (last (images s)) \<noteq> p_x p
        \<or> img_y (last (images s)) \<noteq> p_y p
     \<longrightarrow> (\<exists>s'. imageReducer e s (ADD_IMAGE p) = Inr s' \<and> images s' = images s @ [newImage e p s]
            \<and> selectedImageId s' = Some (img_id (newImage e p s))))
   \<and> (images s \<noteq> [] \<and> img_id (last (images s)) = generateId t r \<and> 50 \<le> int (env_now e) - int t
     \<longrightarrow> (\<exists>s'. imageReducer e s (ADD_IMAGE p) = Inr s' \<and> images s' = images s @ [newImage e p s]
            \<and> selectedImageId s' = Some (img_id (newImage e p s))))"
proof (intro conjI impI)
  assume a: "images s \<noteq> [] \<and> img_id (last (images s)) = generateId t r
      \<and> img_src (last (images s)) = p_src p \<and> img_x (last (images s)) = p_x p
      \<and> img_y (last (images s)) = p_y p \<and> int (env_now e) - int t < 50"
  then have "isDuplicate e p (images s)"
    by (simp add: isDuplicate_last isVeryRecentDuplicate_def idTime_generateId)
  then show "imageReducer e s (ADD_IMAGE p) = Inr s" by (simp add: addImage_def)
next
  assume b: "images s = [] \<or> img_src (last (images s)) \<noteq> p_src p \<or> img_x (last (images s)) \<noteq> p_x p
        \<or> img_y (last (images s)) \<noteq> p_y p"
  have "\<not> isDuplicate e p (images s)"
  proof (cases "images s = []")
    case True
    then show ?thesis by simp
  next
    case False
    with b show ?thesis by (auto simp add: isDuplicate_last isVeryRecentDuplicate_def)
  qed
  then show "\<exists>s'. imageReducer e s (ADD_IMAGE p) = Inr s' \<and> images s' = images s @ [newImage e p s]
            \<and> selectedImageId s' = Some (img_id (newImage e p s))"
    by (simp add: addImage_def)
next
  assume c: "images s \<noteq> [] \<and> img_id (last (images s)) = generateId t r
      \<and> 50 \<le> int (env_now e) - int t"
  then have "\<not> isDuplicate e p (images s)"
    by (simp add: isDuplicate_last isVeryRecentDuplicate_def idTime_generateId)
  then show "\<exists>s'. imageReducer e s (ADD_IMAGE p) = Inr s' \<and> images s' = images s @ [newImage e p s]
            \<and> selectedImageId s' = Some (img_id (newImage e p s))"
    by (simp add: addImage_def)
qed


lemma images_docA: "images docA = [newImage envA payA initialState]"
  by (simp add: docA_def addImage_def initialState_def)

lemma newImage_A_fields:
  "img_id (newImage envA payA initialState) = idA"
  "img_src (newImage envA payA initialState) = p_src payA"
  "img_x (newImage envA payA initialState) = p_x payA"
  "img_y (newImage envA payA initialState) = p_y payA"
  by (simp_all add: newImage_def envA_def mkEnv_def idA_def)

theorem addImage_duplicate_guard_witness:
  "(images docA \<noteq> [] \<and> img_id (last (images docA)) = generateId 1000 ''a''
      \<and> img_src (last (images docA)) = p_src payA \<and> img_x (last (images docA)) = p_x payA
      \<and> img_y (last (images docA)) = p_y payA \<and> int (env_now envA') - int 1000 < 50
      \<and> imageReducer envA' docA (ADD_IMAGE payA) = Inr docA)
   \<and> (img_src (last (images docA)) \<noteq> p_src payB
      \<and> (\<exists>s'. imageReducer envA' docA (ADD_IMAGE payB) = Inr s'
             \<and> images s' = images docA @ [newImage envA' payB docA]
             \<and> selectedImageId s' = Some (img_id (newImage envA' payB docA))))
   \<and> (50 \<le> int (env_now envB) - int 1000
      \<and> (\<exists>s'. imageReducer envB docA (ADD_IMAGE payA) = Inr s'
             \<and> images s' = images docA @ [newImage envB payA docA]
             \<and> selectedImageId s' = Some (img_id (newImage envB payA docA))))"
proof -
  have h1: "images docA \<noteq> [] \<and> img_id (last (images docA)) = generateId 1000 ''a''
      \<and> img_src (last (images docA)) = p_src payA \<and> img_x (last (images docA)) = p_x payA
      \<and> img_y (last (images docA)) = p_y payA \<and> int (env_now envA') - int 1000 < 50"
    by (simp add: images_docA newImage_A_fields idA_def envA'_def mkEnv_def)
  have h2: "img_src (last (images docA)) \<noteq> p_src payB"
    using h1 by (simp add: payA_def payB_def mkPayload_def)
  have h3: "50 \<le> int (env_now envB) - int 1000"
    by (simp add: envB_def mkEnv_def)
  from h1 h2 h3 addImage_duplicate_guard [of docA 1000 "''a''" payA envA']
    addImage_duplicate_guard [of docA 1000 "''a''" payB envA']
    addImage_duplicate_guard [of docA 1000 "''a''" payA envB]
  show ?thesis by blast
qed

subsection \<open>History mechanics\<close>

lemma sliceTo_take: "0 \<le> k \<Longrightarrow> sliceTo h k = take (nat k) h"
  by (simp add: sliceTo_def)

lemma sliceTo_all: "sliceTo h (int (length h)) = h"
  by (simp add: sliceTo_def)

lemma length_sliceTo: "length (sliceTo h k) \<le> length h"
  by (simp add: sliceTo_def) arith

lemma set_sliceTo: "set (sliceTo h k) \<subseteq> set h"
  by (auto simp add: sliceTo_def dest: in_set_takeD)

lemma pushHistory_more_fields [simp]:
  "dragMode (pushHistory e a d s) = dragMode s"
  "layerSidebarVisible (pushHistory e a d s) = layerSidebarVisible s"
  "darkMode (pushHistory e a d s) = darkMode s"
  "isLoading (pushHistory e a d s) = isLoading s"
  by (simp_all add: pushHistory_def Let_def)

lemma last_pushHistory:
  "last (history (pushHistory e a d s)) = createHistoryStep e a d (images s)"
  by (simp add: history_pushHistory)

lemma tipped_pushHistory: "tipped (pushHistory e a d s)"
  by (simp add: tipped_def history_pushHistory historyIndex_pushHistory createHistoryStep_def)

lemma history_capHistory:
  "history (capHistory s) = drop (if length (history s) > 100 then 1 else 0) (history s)"
  by (simp add: capHistory_def drop_Suc)

lemma tipped_capHistory:
  assumes "tipped s"
  shows "tipped (capHistory s)" and "last (history (capHistory s)) = last (history s)"
proof -
  have l: "last (history (capHistory s)) = last (history s) \<and> history (capHistory s) \<noteq> []
      \<and> historyIndex (capHistory s) = int (length (history (capHistory s))) - 1"
  proof (cases "length (history s) > 100")
    case True
    then have "tl (history s) \<noteq> []" by (cases "history s") auto
    with assms True show ?thesis by (simp add: tipped_def capHistory_def last_tl)
  next
    case False
    with assms show ?thesis by (simp add: capHistory_def tipped_def)
  qed
  then show "last (history (capHistory s)) = last (history s)" by simp
  from l assms show "tipped (capHistory s)" by (simp add: tipped_def)
qed

lemma redo_at_tip: "historyIndex s = int (length (history s)) - 1 \<Longrightarrow> redo s = Inr s"
  by (simp add: redo_def)

lemma clearCrop_fields [simp]:
  "images (clearCrop s) = images s"
  "history (clearCrop s) = history s"
  "historyIndex (clearCrop s) = historyIndex s"
  "selectedImageId (clearCrop s) = selectedImageId s"
  "aspectRatioLocked (clearCrop s) = aspectRatioLocked s"
  by (simp_all add: clearCrop_def)

lemma clearCrop_pushHistory: "clearCrop (pushHistory e a d s) = pushHistory e a d (clearCrop s)"
  by (simp add: clearCrop_def pushHistory_def Let_def)

text \<open>Every case that appends ends in the push, over a state with the history untouched so far.\<close>

lemma shapeI:
  assumes "imageReducer e s a
            = Inr (if c then capHistory (pushHistory e act desc s0) else pushHistory e act desc s0)"
    and "history s0 = history s" and "historyIndex s0 = historyIndex s"
  shows "\<exists>act desc s0 c. imageReducer e s a
            = Inr (if c then capHistory (pushHistory e act desc s0) else pushHistory e act desc s0)
          \<and> history s0 = history s \<and> historyIndex s0 = historyIndex s"
  using assms by blast

lemma appends_shape:
  assumes "appends e s a"
  shows "\<exists>act desc s0 c. imageReducer e s a
            = Inr (if c then capHistory (pushHistory e act desc s0) else pushHistory e act desc s0)
          \<and> history s0 = history s \<and> historyIndex s0 = historyIndex s"
proof (cases a)
  case (ADD_IMAGE p)
  with assms show ?thesis
    by (intro shapeI [where c = True and act = AddImage and desc = desc_add
          and ?s0.0 = "s\<lparr>images := images s @ [newImage e p s],
                          selectedImageId := Some (img_id (newImage e p s))\<rparr>"])
       (simp_all add: addImage_def)
next
  case (DELETE_IMAGE i)
  with assms obtain k where k: "findIndex (\<lambda>img. img_id img = i) (images s) = Some k"
    by (auto simp add: hasImage_def)
  with DELETE_IMAGE show ?thesis
    by (intro shapeI [where c = False and act = DeleteImage and desc = desc_delete
          and ?s0.0 = "s\<lparr>images := reindex 0 (splice1 k (images s)),
               selectedImageId := (if selectedImageId s = Some i then None else selectedImageId s)\<rparr>"])
       (simp_all add: deleteImage_def)
next
  case (REORDER_LAYER i z)
  with assms obtain k where k: "findIndex (\<lambda>img. img_id img = i) (images s) = Some k"
    by (auto simp add: hasImage_def)
  with REORDER_LAYER show ?thesis
    by (intro shapeI [where c = True and act = ReorderLayer and desc = desc_reorder
          and ?s0.0 = "s\<lparr>images := normalizeZ (map (shiftOther i (img_zIndex (images s ! k)) z)
                 ((images s)[k := (images s ! k)\<lparr>img_zIndex := z\<rparr>]))\<rparr>"])
       (simp_all add: reorderLayer_def Let_def)
next
  case (TOGGLE_LAYER_VISIBILITY i)
  with assms obtain k where k: "findIndex (\<lambda>img. img_id img = i) (images s) = Some k"
    by (auto simp add: hasImage_def)
  with TOGGLE_LAYER_VISIBILITY show ?thesis
    by (intro shapeI [where c = False and act = ToggleVisibility and desc = desc_toggle
          and ?s0.0 = "s\<lparr>images := (images s)[k := (images s ! k)\<lparr>img_visible := \<not> img_visible (images s ! k)\<rparr>]\<rparr>"])
       (simp_all add: toggleLayerVisibility_def)
next
  case APPLY_CROP
  with assms obtain i sel k where
    "crop_imageId (cropState s) = Some i" "i \<noteq> []" "crop_selection (cropState s) = Some sel"
    "findIndex (\<lambda>img. img_id img = i) (images s) = Some k"
    by (auto simp add: cropReady_def hasImage_def split: option.splits)
  with APPLY_CROP show ?thesis
    by (intro shapeI [where c = False and act = CropImage and desc = desc_crop
          and ?s0.0 = "clearCrop (s\<lparr>images := (images s)[k := cropImage sel (images s ! k)]\<rparr>)"])
       (simp_all add: applyCrop_def clearCrop_pushHistory)
next
  case (ADD_HISTORY_STEP act desc)
  then show ?thesis
    by (intro shapeI [where c = True and act = act and desc = desc and ?s0.0 = s])
       (simp_all add: addHistoryStep_def)
qed (use assms in simp_all)

text \<open>An action of an appending kind whose guard fails leaves collection, history and cursor alone.\<close>

lemma not_appends_frame:
  assumes "appendingKind a" "\<not> appends e s a"
  shows "\<exists>s'. imageReducer e s a = Inr s' \<and> images s' = images s \<and> history s' = history s
           \<and> historyIndex s' = historyIndex s \<and> selectedImageId s' = selectedImageId s"
proof (cases a)
  case (ADD_IMAGE p)
  with assms show ?thesis by (simp add: addImage_def)
next
  case (DELETE_IMAGE i)
  with assms show ?thesis by (simp add: deleteImage_def hasImage_def)
next
  case (REORDER_LAYER i z)
  with assms show ?thesis by (simp add: reorderLayer_def hasImage_def)
next
  case (TOGGLE_LAYER_VISIBILITY i)
  with assms show ?thesis by (simp add: toggleLayerVisibility_def hasImage_def)
next
  case APPLY_CROP
  with assms show ?thesis
    by (auto simp add: applyCrop_def cropReady_def hasImage_def split: option.splits)
qed (use assms in simp_all)

lemma appends_result:
  assumes "appends e s a"
  shows "\<exists>s'. imageReducer e s a = Inr s' \<and> tipped s'
          \<and> step_id (last (history s')) = generateId (env_stepIdNow e) (env_stepIdRnd e)
          \<and> step_timestamp (last (history s')) = env_stepTime e
          \<and> (\<exists>k\<le>1. (k = 0 \<or> 100 \<le> length (sliceTo (history s) (historyIndex s + 1)))
                \<and> history s' = drop k (sliceTo (history s) (historyIndex s + 1)
                     @ [last (history s')]))"
proof -
  from appends_shape [OF assms] obtain act desc s0 c where
    r: "imageReducer e s a
          = Inr (if c then capHistory (pushHistory e act desc s0) else pushHistory e act desc s0)"
    and h: "history s0 = history s" "historyIndex s0 = historyIndex s"
    by blast
  let ?p = "pushHistory e act desc s0"
  let ?pre = "sliceTo (history s) (historyIndex s + 1)"
  have tp: "tipped ?p" by (rule tipped_pushHistory)
  have lp: "last (history ?p) = createHistoryStep e act desc (images s0)" by (rule last_pushHistory)
  have hp: "history ?p = ?pre @ [last (history ?p)]"
    by (simp add: history_pushHistory h)
  show ?thesis
  proof (cases c)
    case True
    define k :: nat where "k = (if length (history ?p) > 100 then 1 else 0)"
    have hc: "history (capHistory ?p) = drop k (history ?p)"
      unfolding k_def by (rule history_capHistory)
    have lc: "last (history (capHistory ?p)) = last (history ?p)"
      by (rule tipped_capHistory(2) [OF tp])
    have k1: "k \<le> 1" by (simp add: k_def)
    have k2: "k = 0 \<or> 100 \<le> length ?pre"
      using hp by (auto simp add: k_def history_pushHistory h)
    have "history (capHistory ?p) = drop k (?pre @ [last (history (capHistory ?p))])"
      using hc hp lc by simp
    with k1 k2 have "\<exists>k\<le>1. (k = 0 \<or> 100 \<le> length ?pre)
        \<and> history (capHistory ?p) = drop k (?pre @ [last (history (capHistory ?p))])"
      by blast
    with True r tipped_capHistory [OF tp] lp show ?thesis
      by (simp add: createHistoryStep_def)
  next
    case False
    have "history ?p = drop 0 (?pre @ [last (history ?p)])"
      using hp by simp
    then have "\<exists>k\<le>1. (k = 0 \<or> 100 \<le> length ?pre)
        \<and> history ?p = drop k (?pre @ [last (history ?p)])"
      by blast
    with False r tp lp show ?thesis
      by (simp add: createHistoryStep_def)
  qed
qed

lemma undo_moves:
  assumes "0 < historyIndex s" "historyIndex s < int (length (history s))"
  shows "undo s = Inr (s\<lparr>historyIndex := historyIndex s - 1,
            images := step_images (history s ! nat (historyIndex s - 1))\<rparr>)"
  using assms by (simp add: undo_def Let_def)


lemma butlast_drop_snoc: "k \<le> length xs \<Longrightarrow> butlast (drop k (xs @ [a])) = drop k xs"
  by (simp add: butlast_append)

text \<open>
  Claim C5. After one \<^verbatim>\<open>UNDO\<close>, an action that appends a step leaves a state where
  \<^verbatim>\<open>REDO\<close> returns the state unchanged: the history is not empty, the cursor is on
  its last step, that step is the one this call created (its id and timestamp are the
  call's) and holds the collection on display. When the \<^verbatim>\<open>UNDO\<close> moved the cursor,
  what precedes the new step are steps from strictly before the old cursor position
  (all of them, or all but the oldest when the cap evicted one): the step that was
  undone and every step after it are gone from the list.
\<close>

theorem redo_unavailable_after_undo_and_append:
  assumes "imageReducer e0 s UNDO = Inr s1" and "appends e s1 a"
  shows "\<exists>s2. imageReducer e s1 a = Inr s2
      \<and> imageReducer e' s2 REDO = Inr s2
      \<and> history s2 \<noteq> [] \<and> historyIndex s2 = int (length (history s2)) - 1
      \<and> step_id (last (history s2)) = generateId (env_stepIdNow e) (env_stepIdRnd e)
      \<and> step_timestamp (last (history s2)) = env_stepTime e
      \<and> step_images (last (history s2)) = images s2
      \<and> (0 < historyIndex s \<longrightarrow>
           history s1 = history s \<and> historyIndex s1 = historyIndex s - 1
           \<and> (\<exists>k\<le>1. butlast (history s2) = drop k (take (nat (historyIndex s)) (history s))))"
proof -
  from appends_result [OF assms(2)] obtain s2 k where
    r: "imageReducer e s1 a = Inr s2" and t: "tipped s2"
    and i: "step_id (last (history s2)) = generateId (env_stepIdNow e) (env_stepIdRnd e)"
      "step_timestamp (last (history s2)) = env_stepTime e"
    and k: "k \<le> 1" "history s2 = drop k (sliceTo (history s1) (historyIndex s1 + 1) @ [last (history s2)])"
    by blast
  have redo: "imageReducer e' s2 REDO = Inr s2"
    using t by (simp add: redo_at_tip tipped_def)
  have pruned: "history s1 = history s \<and> historyIndex s1 = historyIndex s - 1
           \<and> (\<exists>k\<le>1. butlast (history s2) = drop k (take (nat (historyIndex s)) (history s)))"
    if pos: "0 < historyIndex s"
  proof -
    have inr: "undo s = Inr s1" using assms(1) by simp
    then have lt: "historyIndex s - 1 < int (length (history s))"
      using pos by (auto simp add: undo_def Let_def split: if_splits)
    from inr pos lt have s1: "s1 = s\<lparr>historyIndex := historyIndex s - 1,
            images := step_images (history s ! nat (historyIndex s - 1))\<rparr>"
      by (simp add: undo_def Let_def)
    then have h1: "history s1 = history s" "historyIndex s1 = historyIndex s - 1" by simp_all
    have sl: "sliceTo (history s1) (historyIndex s1 + 1) = take (nat (historyIndex s)) (history s)"
      using pos by (simp add: h1 sliceTo_take)
    have len: "1 \<le> length (take (nat (historyIndex s)) (history s))"
      using pos lt by simp
    have "butlast (history s2) = drop k (take (nat (historyIndex s)) (history s))"
      using k(1) len by (subst k(2)) (simp add: sl butlast_drop_snoc)
    with h1 k(1) show ?thesis by blast
  qed
  from r redo t i pruned show ?thesis by (auto simp add: tipped_def)
qed


subsection \<open>The example documents\<close>

lemma initialState_fields [simp]:
  "images initialState = []"
  "history initialState = []"
  "historyIndex initialState = - 1"
  "selectedImageId initialState = None"
  "aspectRatioLocked initialState = True"
  by (simp_all add: initialState_def)

lemma imgA_fields:
  "img_id imgA = idA" "img_src imgA = ''data:A''" "img_x imgA = 0" "img_y imgA = 0"
  "img_width imgA = 100" "img_height imgA = 100" "img_zIndex imgA = 0" "img_visible imgA = True"
  "img_aspectRatioLocked imgA = True"
  by (simp_all add: imgA_def newImage_def envA_def mkEnv_def idA_def payA_def mkPayload_def)

lemma docA_fields:
  "images docA = [imgA]"
  "history docA = [createHistoryStep envA AddImage desc_add [imgA]]"
  "historyIndex docA = 0"
  "selectedImageId docA = Some idA"
  "aspectRatioLocked docA = True"
  by (simp_all add: docA_def addImage_def pushHistory_def capHistory_def
      sliceTo_def Let_def imgA_def [symmetric] imgA_fields)

lemma not_dup_docA_B: "\<not> isDuplicate envB payB [imgA]"
  by (simp add: isDuplicate_last isVeryRecentDuplicate_def imgA_fields
      payB_def mkPayload_def)

lemma imgB_fields:
  "img_id imgB = idB" "img_src imgB = ''data:B''" "img_x imgB = 10" "img_y imgB = 10"
  "img_width imgB = 50" "img_height imgB = 50" "img_zIndex imgB = 1" "img_visible imgB = True"
  "img_aspectRatioLocked imgB = True"
  by (simp_all add: imgB_def newImage_def envB_def mkEnv_def idB_def payB_def mkPayload_def
      docA_fields)

lemma docAB_fields:
  "images docAB = [imgA, imgB]"
  "history docAB =
     [createHistoryStep envA AddImage desc_add [imgA],
      createHistoryStep envB AddImage desc_add [imgA, imgB]]"
  "historyIndex docAB = 1"
  "selectedImageId docAB = Some idB"
  by (simp_all add: docAB_def addImage_def not_dup_docA_B docA_fields
      pushHistory_def capHistory_def sliceTo_def Let_def imgB_def [symmetric] imgB_fields)

theorem redo_unavailable_after_undo_and_append_witness:
  "imageReducer envC docAB UNDO = Inr (docAB\<lparr>historyIndex := 0, images := images docA\<rparr>)
   \<and> appends envC (docAB\<lparr>historyIndex := 0, images := images docA\<rparr>) (ADD_HISTORY_STEP MoveImage ''moved'')
   \<and> 0 < historyIndex docAB
   \<and> (\<exists>s2. imageReducer envC (docAB\<lparr>historyIndex := 0, images := images docA\<rparr>)
               (ADD_HISTORY_STEP MoveImage ''moved'') = Inr s2
         \<and> imageReducer envC s2 REDO = Inr s2
         \<and> historyIndex s2 = int (length (history s2)) - 1
         \<and> step_images (last (history s2)) = images s2
         \<and> (\<exists>k\<le>1. butlast (history s2) = drop k (take 1 (history docAB))))"
proof -
  have u: "imageReducer envC docAB UNDO = Inr (docAB\<lparr>historyIndex := 0, images := images docA\<rparr>)"
    by (simp add: undo_moves docAB_fields docA_fields createHistoryStep_def)
  have a: "appends envC (docAB\<lparr>historyIndex := 0, images := images docA\<rparr>) (ADD_HISTORY_STEP MoveImage ''moved'')"
    by simp
  have p: "0 < historyIndex docAB" by (simp add: docAB_fields)
  from redo_unavailable_after_undo_and_append [OF u a, of envC] p
  obtain s2 where
    "imageReducer envC (docAB\<lparr>historyIndex := 0, images := images docA\<rparr>)
               (ADD_HISTORY_STEP MoveImage ''moved'') = Inr s2"
    "imageReducer envC s2 REDO = Inr s2"
    "historyIndex s2 = int (length (history s2)) - 1"
    "step_images (last (history s2)) = images s2"
    "\<exists>k\<le>1. butlast (history s2) = drop k (take (nat (historyIndex docAB)) (history docAB))"
    by blast
  with u a p show ?thesis by (auto simp add: docAB_fields)
qed


subsection \<open>Runs of appending actions, of undos and of redos\<close>

lemma run_append:
  "run s (xs @ ys) = (case run s xs of Inl err \<Rightarrow> Inl err | Inr s' \<Rightarrow> run s' ys)"
  by (induction xs arbitrary: s) (auto split: sum.splits)









subsection \<open>Undo and redo over a run of appending actions\<close>






lemma run_to_docA: "imageReducer envA initialState (ADD_IMAGE payA) = Inr docA"
  by (simp add: docA_def)

lemma run_to_docAB: "run initialState [(envA, ADD_IMAGE payA), (envB, ADD_IMAGE payB)] = Inr docAB"
  by (simp add: docA_def docAB_def)



subsection \<open>Looking images up by id\<close>

lemma findIndex_None_iff: "findIndex P xs = None \<longleftrightarrow> (\<forall>a\<in>set xs. \<not> P a)"
  by (induction xs) auto

lemma findIndex_Some:
  "findIndex P xs = Some k \<Longrightarrow> k < length xs \<and> P (xs ! k) \<and> (\<forall>j<k. \<not> P (xs ! j))"
proof (induction xs arbitrary: k)
  case Nil
  then show ?case by simp
next
  case (Cons a xs)
  show ?case
  proof (cases "P a")
    case True
    with Cons.prems show ?thesis by simp
  next
    case False
    with Cons.prems obtain k' where k': "findIndex P xs = Some k'" "k = Suc k'" by auto
    from Cons.IH [OF k'(1)] False k'(2) show ?thesis
      by (auto simp add: less_Suc_eq_0_disj)
  qed
qed

lemma hasImage_iff: "hasImage i s \<longleftrightarrow> i \<in> img_id ` set (images s)"
  by (auto simp add: hasImage_def findIndex_None_iff)

lemma map_img_id_update:
  "k < length xs \<Longrightarrow> img_id b = img_id (xs ! k) \<Longrightarrow> map img_id (xs[k := b]) = map img_id xs"
  by (simp add: map_update list_update_same_conv)

lemma set_ids_conv: "img_id ` set xs = set (map img_id xs)"
  by simp

subsection \<open>The history cap\<close>

lemma toggle_step:
  assumes "hasImage i s" "historyIndex s = int (length (history s)) - 1"
  shows "\<exists>s'. imageReducer e s (TOGGLE_LAYER_VISIBILITY i) = Inr s'
           \<and> length (history s') = Suc (length (history s)) \<and> hasImage i s'
           \<and> historyIndex s' = int (length (history s')) - 1"
proof -
  from assms(1) obtain k where k: "findIndex (\<lambda>img. img_id img = i) (images s) = Some k"
    by (auto simp add: hasImage_def)
  from findIndex_Some [OF k] have kl: "k < length (images s)" by simp
  let ?s0 = "s\<lparr>images := (images s)[k := (images s ! k)\<lparr>img_visible := \<not> img_visible (images s ! k)\<rparr>]\<rparr>"
  let ?s' = "pushHistory e ToggleVisibility desc_toggle ?s0"
  have r: "imageReducer e s (TOGGLE_LAYER_VISIBILITY i) = Inr ?s'"
    using k by (simp add: toggleLayerVisibility_def)
  have sl: "sliceTo (history s) (historyIndex s + 1) = history s"
    using sliceTo_all [of "history s"] assms(2) by simp
  have len: "length (history ?s') = Suc (length (history s))"
    by (simp add: history_pushHistory sl)
  have ids: "map img_id (images ?s') = map img_id (images s)"
    using kl by (simp add: map_img_id_update)
  have has: "hasImage i ?s'"
    using assms(1) unfolding hasImage_iff set_ids_conv ids .
  from r len has historyIndex_pushHistory [of e ToggleVisibility desc_toggle ?s0]
  show ?thesis by blast
qed

lemma toggle_run:
  assumes "hasImage i s" "historyIndex s = int (length (history s)) - 1"
  shows "\<exists>s'. run s (replicate n (e, TOGGLE_LAYER_VISIBILITY i)) = Inr s'
           \<and> length (history s') = length (history s) + n \<and> hasImage i s'
           \<and> historyIndex s' = int (length (history s')) - 1"
  using assms
proof (induction n arbitrary: s)
  case 0
  then show ?case by simp
next
  case (Suc n)
  from toggle_step [OF Suc.prems, of e] obtain s1 where
    s1: "imageReducer e s (TOGGLE_LAYER_VISIBILITY i) = Inr s1"
      "length (history s1) = Suc (length (history s))" "hasImage i s1"
      "historyIndex s1 = int (length (history s1)) - 1"
    by blast
  from Suc.IH [OF s1(3,4)] obtain s' where
    "run s1 (replicate n (e, TOGGLE_LAYER_VISIBILITY i)) = Inr s'"
    "length (history s') = length (history s1) + n" "hasImage i s'"
    "historyIndex s' = int (length (history s')) - 1"
    by blast
  with s1 show ?case by auto
qed

text \<open>
  Claim C4. Only \<^verbatim>\<open>ADD_IMAGE\<close>, \<^verbatim>\<open>ADD_HISTORY_STEP\<close> and \<^verbatim>\<open>REORDER_LAYER\<close> run the
  cap after their push; \<^verbatim>\<open>TOGGLE_LAYER_VISIBILITY\<close>, \<^verbatim>\<open>DELETE_IMAGE\<close> and
  \<^verbatim>\<open>APPLY_CROP\<close> push without it. One add followed by a hundred visibility toggles
  leaves a history of 101 steps.
\<close>

theorem history_exceeds_cap:
  "historyLengthOf (run initialState
      ((envA, ADD_IMAGE payA) # replicate 100 (envB, TOGGLE_LAYER_VISIBILITY idA))) = Some 101"
proof -
  have h: "hasImage idA docA" by (simp add: hasImage_iff docA_fields imgA_fields)
  have i: "historyIndex docA = int (length (history docA)) - 1" by (simp add: docA_fields)
  from toggle_run [OF h i, of 100 envB] obtain s' where
    "run docA (replicate 100 (envB, TOGGLE_LAYER_VISIBILITY idA)) = Inr s'"
    "length (history s') = length (history docA) + 100"
    by blast
  then show ?thesis by (simp add: docA_def [symmetric] historyLengthOf_def docA_fields)
qed

subsection \<open>Renumbering after a delete\<close>

lemma ids_distinct: "idA \<noteq> idB" "idA \<noteq> idC" "idB \<noteq> idC"
proof -
  have "idTime idA = Some 1000" "idTime idB = Some 2000" "idTime idC = Some 3000"
    by (simp_all add: idA_def idB_def idC_def idTime_generateId)
  then show "idA \<noteq> idB" "idA \<noteq> idC" "idB \<noteq> idC" by auto
qed

lemma imgC_fields:
  "img_id imgC = idC" "img_src imgC = ''data:C''" "img_x imgC = 20" "img_y imgC = 20"
  "img_width imgC = 60" "img_height imgC = 60" "img_zIndex imgC = 2" "img_visible imgC = True"
  by (simp_all add: imgC_def newImage_def envC_def mkEnv_def idC_def payC_def mkPayload_def
      docAB_fields)

lemma not_dup_docAB_C: "\<not> isDuplicate envC payC [imgA, imgB]"
  by (simp add: isDuplicate_last isVeryRecentDuplicate_def imgB_fields payC_def mkPayload_def)

lemma images_docABC: "images docABC = [imgA, imgB, imgC]"
  by (simp add: docABC_def addImage_def not_dup_docAB_C docAB_fields imgC_def [symmetric])

lemma upt_3: "[0..<3] = [0, 1, 2]"
  by (simp add: upt_rec)

lemma reorder_docABC:
  "images (reorderLayer envD idA 2 docABC)
     = [imgA\<lparr>img_zIndex := 2\<rparr>, imgB\<lparr>img_zIndex := 0\<rparr>, imgC\<lparr>img_zIndex := 1\<rparr>]"
proof -
  have f: "findIndex (\<lambda>img. img_id img = idA) [imgA, imgB, imgC] = Some 0"
    by (simp add: imgA_fields)
  have sh: "shiftOther idA 0 2 (imgA\<lparr>img_zIndex := 2\<rparr>) = imgA\<lparr>img_zIndex := 2\<rparr>"
    "shiftOther idA 0 2 imgB = imgB\<lparr>img_zIndex := 0\<rparr>"
    "shiftOther idA 0 2 imgC = imgC\<lparr>img_zIndex := 1\<rparr>"
    using ids_distinct by (simp_all add: shiftOther_def imgA_fields imgB_fields imgC_fields)
  have so: "sortedRefs [imgA\<lparr>img_zIndex := 2\<rparr>, imgB\<lparr>img_zIndex := 0\<rparr>, imgC\<lparr>img_zIndex := 1\<rparr>]
      = [1, 2, 0]"
    by (simp add: sortedRefs_def upt_3)
  have no: "normalizeZ [imgA\<lparr>img_zIndex := 2\<rparr>, imgB\<lparr>img_zIndex := 0\<rparr>, imgC\<lparr>img_zIndex := 1\<rparr>]
      = [imgA\<lparr>img_zIndex := 2\<rparr>, imgB\<lparr>img_zIndex := 0\<rparr>, imgC\<lparr>img_zIndex := 1\<rparr>]"
    by (simp add: normalizeZ_def so)
  show ?thesis
    by (simp add: reorderLayer_def images_docABC f imgA_fields sh no Let_def)
qed

lemma delete_after_reorder:
  "images (deleteImage envE idC (reorderLayer envD idA 2 docABC))
     = [imgA\<lparr>img_zIndex := 0\<rparr>, imgB\<lparr>img_zIndex := 1\<rparr>]"
proof -
  show ?thesis
    using ids_distinct
    by (simp add: deleteImage_def reorder_docABC splice1_def imgA_fields imgB_fields imgC_fields)
qed

lemma run_to_docABC:
  "run initialState [(envA, ADD_IMAGE payA), (envB, ADD_IMAGE payB), (envC, ADD_IMAGE payC)]
     = Inr docABC"
  by (simp add: docA_def docAB_def docABC_def)

text \<open>
  Claim C3. \<^verbatim>\<open>DELETE_IMAGE\<close> renumbers by position in the collection, not by
  stacking order. After three adds and a \<^verbatim>\<open>REORDER_LAYER\<close> that brings the first
  image to the top, the layers are A at 2, B at 0, C at 1. Deleting C, which holds
  zIndex 1, leaves A at 0 and B at 1: A was above C and is not at 1, B was below C and
  did not keep 0, and the two have swapped their stacking order.
\<close>

theorem delete_renumbers_by_position:
  "layersOf (run initialState
      [(envA, ADD_IMAGE payA), (envB, ADD_IMAGE payB), (envC, ADD_IMAGE payC),
       (envD, REORDER_LAYER idA 2)])
     = Some [(idA, 2), (idB, 0), (idC, 1)]
   \<and> layersOf (run initialState
      [(envA, ADD_IMAGE payA), (envB, ADD_IMAGE payB), (envC, ADD_IMAGE payC),
       (envD, REORDER_LAYER idA 2), (envE, DELETE_IMAGE idC)])
     = Some [(idA, 0), (idB, 1)]"
proof -
  have r: "run initialState
      [(envA, ADD_IMAGE payA), (envB, ADD_IMAGE payB), (envC, ADD_IMAGE payC),
       (envD, REORDER_LAYER idA 2)] = Inr (reorderLayer envD idA 2 docABC)"
    using run_to_docABC run_append [of initialState
      "[(envA, ADD_IMAGE payA), (envB, ADD_IMAGE payB), (envC, ADD_IMAGE payC)]"
      "[(envD, REORDER_LAYER idA 2)]"]
    by simp
  have d: "run initialState
      [(envA, ADD_IMAGE payA), (envB, ADD_IMAGE payB), (envC, ADD_IMAGE payC),
       (envD, REORDER_LAYER idA 2), (envE, DELETE_IMAGE idC)]
      = Inr (deleteImage envE idC (reorderLayer envD idA 2 docABC))"
    using run_to_docABC run_append [of initialState
      "[(envA, ADD_IMAGE payA), (envB, ADD_IMAGE payB), (envC, ADD_IMAGE payC)]"
      "[(envD, REORDER_LAYER idA 2), (envE, DELETE_IMAGE idC)]"]
    by simp
  show ?thesis
    unfolding r d
    by (simp add: layersOf_def imagesOf_def reorder_docABC delete_after_reorder
        imgA_fields imgB_fields imgC_fields)
qed

subsection \<open>Density of the zIndex values\<close>

lemma dense_Nil [simp]: "dense []"
  by (simp add: dense_def)

lemma dense_snoc: "dense xs \<Longrightarrow> img_zIndex a = real (length xs) \<Longrightarrow> dense (xs @ [a])"
  by (simp add: dense_def)

lemma dense_cong: "map img_zIndex ys = map img_zIndex xs \<Longrightarrow> dense ys = dense xs"
proof -
  assume a: "map img_zIndex ys = map img_zIndex xs"
  then have "length ys = length xs" by (rule map_eq_imp_length_eq)
  with a show ?thesis by (simp add: dense_def)
qed

lemma length_reindex [simp]: "length (reindex k xs) = length xs"
  by (induction xs arbitrary: k) simp_all

lemma zs_reindex: "map img_zIndex (reindex k xs) = map real [k..<k + length xs]"
  by (induction xs arbitrary: k) (simp_all add: upt_conv_Cons del: upt_Suc)

lemma dense_reindex: "dense (reindex 0 xs)"
  by (simp add: dense_def zs_reindex)

lemma length_assignRanks [simp]: "length (assignRanks r ks imgs) = length imgs"
  by (induction ks arbitrary: r imgs) simp_all

lemma assignRanks_untouched: "k \<notin> set ks \<Longrightarrow> assignRanks r ks imgs ! k = imgs ! k"
  by (induction ks arbitrary: r imgs) auto

lemma assignRanks_rank:
  assumes "distinct ks" "\<forall>k\<in>set ks. k < length imgs" "j < length ks"
  shows "img_zIndex (assignRanks r ks imgs ! (ks ! j)) = real (r + j)"
  using assms
proof (induction ks arbitrary: r imgs j)
  case Nil
  then show ?case by simp
next
  case (Cons k ks)
  show ?case
  proof (cases j)
    case 0
    with Cons.prems show ?thesis by (simp add: assignRanks_untouched)
  next
    case (Suc j')
    with Cons.prems have "img_zIndex (assignRanks (Suc r) ks
        (imgs[k := (imgs ! k)\<lparr>img_zIndex := real r\<rparr>]) ! (ks ! j')) = real (Suc r + j')"
      by (intro Cons.IH) simp_all
    with Suc show ?thesis by simp
  qed
qed

lemma zs_assignRanks:
  assumes "distinct ks" "\<forall>k\<in>set ks. k < length imgs"
  shows "map (\<lambda>k. img_zIndex (assignRanks r ks imgs ! k)) ks = map real [r..<r + length ks]"
  using assms by (intro nth_equalityI) (simp_all add: assignRanks_rank)

lemma sortedRefs_perm: "mset (sortedRefs imgs) = mset [0..<length imgs]"
  unfolding sortedRefs_def by (rule mset_sort)

lemma dense_normalizeZ: "dense (normalizeZ imgs)"
proof -
  let ?ks = "sortedRefs imgs"
  let ?res = "assignRanks 0 ?ks imgs"
  let ?f = "\<lambda>k. img_zIndex (?res ! k)"
  have p: "mset ?ks = mset [0..<length imgs]" by (rule sortedRefs_perm)
  have d: "distinct ?ks" using p by (metis distinct_upt mset_eq_imp_distinct_iff)
  have s: "set ?ks = {0..<length imgs}" using p by (metis mset_eq_setD set_upt)
  have l: "length ?ks = length imgs" using p by (metis length_upt mset_eq_length minus_nat.diff_0)
  have b: "\<forall>k\<in>set ?ks. k < length imgs" using s by simp
  have "map img_zIndex ?res = map ?f [0..<length ?res]"
    by (intro nth_equalityI) simp_all
  then have "mset (map img_zIndex ?res) = image_mset ?f (mset [0..<length imgs])"
    by simp
  also have "\<dots> = image_mset ?f (mset ?ks)" by (simp only: p)
  also have "\<dots> = mset (map ?f ?ks)" by simp
  also have "\<dots> = mset (map real [0..<length imgs])"
    using zs_assignRanks [OF d b, of 0] by (simp add: l)
  finally show ?thesis by (simp add: dense_def normalizeZ_def)
qed

lemma zs_update:
  "k < length xs \<Longrightarrow> img_zIndex b = img_zIndex (xs ! k)
    \<Longrightarrow> map img_zIndex (xs[k := b]) = map img_zIndex xs"
  by (simp add: map_update list_update_same_conv)

lemma list_all_sliceTo: "list_all P h \<Longrightarrow> list_all P (sliceTo h k)"
  using set_sliceTo [of h k] by (auto simp add: list_all_iff)

lemma allDense_pushHistory:
  "dense (images s) \<Longrightarrow> list_all (\<lambda>st. dense (step_images st)) (history s)
    \<Longrightarrow> allDense (pushHistory e a d s)"
  by (simp add: allDense_def history_pushHistory list_all_sliceTo createHistoryStep_def)

lemma allDense_capHistory: "allDense s \<Longrightarrow> allDense (capHistory s)"
  by (cases "history s") (auto simp add: allDense_def capHistory_def)

lemma img_zIndex_assignImage: "u_zIndex u = None \<Longrightarrow> img_zIndex (assignImage u a) = img_zIndex a"
  by (simp add: assignImage_def)

lemma allDense_step:
  assumes "allDense s" "zsafe a" "imageReducer e s a = Inr s'"
  shows "allDense s'"
proof -
  from assms(1) have di: "dense (images s)" and dh: "list_all (\<lambda>st. dense (step_images st)) (history s)"
    by (simp_all add: allDense_def)
  show ?thesis
  proof (cases a)
    case (ADD_IMAGE p)
    show ?thesis
    proof (cases "isDuplicate e p (images s)")
      case True
      with ADD_IMAGE assms show ?thesis by (simp add: addImage_def)
    next
      case False
      have "dense (images s @ [newImage e p s])"
        using di by (rule dense_snoc) (simp add: newImage_def)
      then have "allDense (capHistory (pushHistory e AddImage desc_add
             (s\<lparr>images := images s @ [newImage e p s],
                selectedImageId := Some (img_id (newImage e p s))\<rparr>)))"
        using dh by (intro allDense_capHistory allDense_pushHistory) simp_all
      with False ADD_IMAGE assms(3) show ?thesis by (simp add: addImage_def)
    qed
  next
    case (DELETE_IMAGE i)
    show ?thesis
    proof (cases "findIndex (\<lambda>img. img_id img = i) (images s)")
      case None
      with DELETE_IMAGE assms show ?thesis by (simp add: deleteImage_def)
    next
      case (Some k)
      have "allDense (pushHistory e DeleteImage desc_delete
            (s\<lparr>images := reindex 0 (splice1 k (images s)),
               selectedImageId := (if selectedImageId s = Some i then None else selectedImageId s)\<rparr>))"
        using dh by (intro allDense_pushHistory) (simp_all add: dense_reindex)
      with Some DELETE_IMAGE assms(3) show ?thesis by (simp add: deleteImage_def)
    qed
  next
    case (UPDATE_IMAGE i u)
    show ?thesis
    proof (cases "findIndex (\<lambda>img. img_id img = i) (images s)")
      case None
      with UPDATE_IMAGE assms show ?thesis by (simp add: updateImage_def)
    next
      case (Some k)
      from findIndex_Some [OF Some] have kl: "k < length (images s)" by simp
      from UPDATE_IMAGE assms(2) have z: "u_zIndex u = None" by simp
      have "dense ((images s)[k := assignImage u (images s ! k)])"
        using di kl by (simp add: dense_cong [OF zs_update] img_zIndex_assignImage [OF z])
      with Some UPDATE_IMAGE assms(3) dh show ?thesis
        by (auto simp add: updateImage_def allDense_def)
    qed
  next
    case UNDO
    with assms(3) have u: "undo s = Inr s'" by simp
    show ?thesis
    proof (cases "0 < historyIndex s")
      case True
      with u have lt: "historyIndex s - 1 < int (length (history s))"
        by (auto simp add: undo_def Let_def split: if_splits)
      with True have n: "nat (historyIndex s - 1) < length (history s)" by simp
      from dh n have "dense (step_images (history s ! nat (historyIndex s - 1)))"
        by (simp add: list_all_length)
      with u True lt dh show ?thesis by (auto simp add: undo_def Let_def allDense_def)
    next
      case False
      with u assms(1) show ?thesis by (simp add: undo_def)
    qed
  next
    case REDO
    with assms(3) have r: "redo s = Inr s'" by simp
    show ?thesis
    proof (cases "historyIndex s < int (length (history s)) - 1")
      case True
      with r have ge: "0 \<le> historyIndex s + 1"
        by (auto simp add: redo_def Let_def split: if_splits)
      with True have n: "nat (historyIndex s + 1) < length (history s)" by simp
      from dh n have "dense (step_images (history s ! nat (historyIndex s + 1)))"
        by (simp add: list_all_length)
      with r True ge dh show ?thesis by (auto simp add: redo_def Let_def allDense_def)
    next
      case False
      with r assms(1) show ?thesis by (simp add: redo_def)
    qed
  next
    case (ADD_HISTORY_STEP act desc)
    have "allDense (capHistory (pushHistory e act desc s))"
      using di dh by (intro allDense_capHistory allDense_pushHistory)
    with ADD_HISTORY_STEP assms(3) show ?thesis by (simp add: addHistoryStep_def)
  next
    case APPLY_CROP
    have c: "allDense (clearCrop t)" if "allDense t" for t
      using that by (simp add: allDense_def)
    have p: "allDense (pushHistory e CropImage desc_crop
        (s\<lparr>images := (images s)[k := cropImage sel (images s ! k)]\<rparr>))"
      if "k < length (images s)" for k sel
      using di dh that
      by (intro allDense_pushHistory) (simp_all add: dense_cong [OF zs_update] cropImage_def)
    from APPLY_CROP assms(3) have s': "s' = applyCrop e s" by simp
    show ?thesis
    proof (cases "cropReady s")
      case True
      then obtain i sel k where
        g: "crop_imageId (cropState s) = Some i" "i \<noteq> []" "crop_selection (cropState s) = Some sel"
          "findIndex (\<lambda>img. img_id img = i) (images s) = Some k"
        by (auto simp add: cropReady_def hasImage_def split: option.splits)
      from findIndex_Some [OF g(4)] have "k < length (images s)" by simp
      from c [OF p [OF this, of sel]] g show ?thesis by (simp add: s' applyCrop_def)
    next
      case False
      then have "applyCrop e s = clearCrop s"
        by (auto simp add: applyCrop_def cropReady_def hasImage_def split: option.splits)
      with c [OF assms(1)] show ?thesis by (simp add: s')
    qed
  next
    case (REORDER_LAYER i z)
    show ?thesis
    proof (cases "findIndex (\<lambda>img. img_id img = i) (images s)")
      case None
      with REORDER_LAYER assms show ?thesis by (simp add: reorderLayer_def)
    next
      case (Some k)
      have "allDense (capHistory (pushHistory e ReorderLayer desc_reorder
                (s\<lparr>images := normalizeZ (map (shiftOther i (img_zIndex (images s ! k)) z)
                   ((images s)[k := (images s ! k)\<lparr>img_zIndex := z\<rparr>]))\<rparr>)))"
        using dh by (intro allDense_capHistory allDense_pushHistory) (simp_all add: dense_normalizeZ)
      with Some REORDER_LAYER assms(3) show ?thesis by (simp add: reorderLayer_def Let_def)
    qed
  next
    case (TOGGLE_LAYER_VISIBILITY i)
    show ?thesis
    proof (cases "findIndex (\<lambda>img. img_id img = i) (images s)")
      case None
      with TOGGLE_LAYER_VISIBILITY assms show ?thesis by (simp add: toggleLayerVisibility_def)
    next
      case (Some k)
      from findIndex_Some [OF Some] have kl: "k < length (images s)" by simp
      have "allDense (pushHistory e ToggleVisibility desc_toggle
            (s\<lparr>images := (images s)[k := (images s ! k)\<lparr>img_visible := \<not> img_visible (images s ! k)\<rparr>]\<rparr>))"
        using di dh kl by (intro allDense_pushHistory) (simp_all add: dense_cong [OF zs_update])
      with Some TOGGLE_LAYER_VISIBILITY assms(3) show ?thesis
        by (simp add: toggleLayerVisibility_def)
    qed
  next
    case (LOAD_STATE l)
    with assms show ?thesis by (auto simp add: loadState_def allDense_def)
  next
    case RESET_STATE
    with assms(3) show ?thesis by (auto simp add: allDense_def)
  qed (use assms in \<open>auto simp add: allDense_def clearCrop_def\<close>)
qed

lemma allDense_run:
  assumes "list_all (\<lambda>ea. zsafe (snd ea)) ops" "allDense s" "run s ops = Inr s'"
  shows "allDense s'"
  using assms
proof (induction ops arbitrary: s)
  case Nil
  then show ?case by simp
next
  case (Cons ea ops)
  from Cons.prems(3) obtain s1 where
    s1: "imageReducer (fst ea) s (snd ea) = Inr s1" "run s1 ops = Inr s'"
    by (auto split: sum.splits)
  from Cons.prems(1) have z: "zsafe (snd ea)" and rest: "list_all (\<lambda>ea. zsafe (snd ea)) ops"
    by simp_all
  from allDense_step [OF Cons.prems(2) z s1(1)] have "allDense s1" .
  from Cons.IH [OF rest this s1(2)] show ?case .
qed


lemma dense_distinct_set:
  assumes "dense imgs"
  shows "distinct (map img_zIndex imgs)"
    and "set (map img_zIndex imgs) = real ` {0..<length imgs}"
proof -
  from assms have m: "mset (map img_zIndex imgs) = mset (map real [0..<length imgs])"
    by (simp add: dense_def)
  have "distinct (map real [0..<length imgs])" by (simp add: distinct_map)
  with m show "distinct (map img_zIndex imgs)" by (metis mset_eq_imp_distinct_iff)
  from m have "set (map img_zIndex imgs) = set (map real [0..<length imgs])" by (rule mset_eq_setD)
  then show "set (map img_zIndex imgs) = real ` {0..<length imgs}" by simp
qed

text \<open>
  Claim C2, as amended. In every state reached from the empty document by reducer
  actions none of which writes a zIndex from outside (no \<^verbatim>\<open>UPDATE_IMAGE\<close> with a
  \<^verbatim>\<open>zIndex\<close> key, no \<^verbatim>\<open>LOAD_STATE\<close> with \<^verbatim>\<open>images\<close> or \<^verbatim>\<open>history\<close>), the
  zIndex values of the \<open>N\<close> images are pairwise different and their set is
  \<open>{0, ..., N - 1}\<close>; the same holds of every snapshot in the history.
\<close>

theorem zIndex_dense_invariant:
  assumes "list_all (\<lambda>ea. zsafe (snd ea)) ops" "run initialState ops = Inr s"
  shows "distinct (map img_zIndex (images s))
       \<and> set (map img_zIndex (images s)) = real ` {0..<length (images s)}
       \<and> list_all (\<lambda>st. dense (step_images st)) (history s)"
proof -
  have "allDense initialState" by (simp add: allDense_def)
  from allDense_run [OF assms(1) this assms(2)] have "allDense s" .
  then show ?thesis using dense_distinct_set [of "images s"] by (simp add: allDense_def)
qed

theorem zIndex_dense_invariant_witness:
  "list_all (\<lambda>ea. zsafe (snd ea)) [(envA, ADD_IMAGE payA), (envB, ADD_IMAGE payB)]
   \<and> run initialState [(envA, ADD_IMAGE payA), (envB, ADD_IMAGE payB)] = Inr docAB
   \<and> map img_zIndex (images docAB) = [0, 1]
   \<and> distinct (map img_zIndex (images docAB))
   \<and> set (map img_zIndex (images docAB)) = real ` {0..<length (images docAB)}"
proof -
  have h: "list_all (\<lambda>ea. zsafe (snd ea)) [(envA, ADD_IMAGE payA), (envB, ADD_IMAGE payB)]"
    by simp
  from zIndex_dense_invariant [OF h run_to_docAB] h run_to_docAB show ?thesis
    by (simp add: docAB_fields imgA_fields imgB_fields)
qed

text \<open>
  The claim as written lists \<^verbatim>\<open>UpdateImage\<close> among the operations, and the reducer
  merges whatever keys the updates carry: an add followed by an update with
  \<^verbatim>\<open>zIndex: 5\<close> leaves one image, at zIndex 5.
\<close>

theorem zIndex_dense_counterexample:
  "layersOf (run initialState
      [(envA, ADD_IMAGE payA), (envB, UPDATE_IMAGE idA (noUpdates\<lparr>u_zIndex := Some 5\<rparr>))])
     = Some [(idA, 5)]
   \<and> [5] \<noteq> map real [0..<1]"
proof -
  have f: "findIndex (\<lambda>img. img_id img = idA) [imgA] = Some 0" by (simp add: imgA_fields)
  show ?thesis
    by (simp add: docA_def [symmetric] updateImage_def docA_fields f layersOf_def imagesOf_def
        assignImage_def noUpdates_def imgA_fields)
qed

subsection \<open>The selection\<close>

lemma ids_reindex: "map img_id (reindex k xs) = map img_id xs"
  by (induction xs arbitrary: k) simp_all

lemma ids_assignRanks:
  "\<forall>k\<in>set ks. k < length imgs \<Longrightarrow> map img_id (assignRanks r ks imgs) = map img_id imgs"
proof (induction ks arbitrary: r imgs)
  case Nil
  then show ?case by simp
next
  case (Cons k ks)
  then have "map img_id (assignRanks (Suc r) ks (imgs[k := (imgs ! k)\<lparr>img_zIndex := real r\<rparr>]))
      = map img_id (imgs[k := (imgs ! k)\<lparr>img_zIndex := real r\<rparr>])"
    by (intro Cons.IH) simp
  with Cons.prems show ?case by (simp add: map_img_id_update)
qed

lemma ids_normalizeZ: "map img_id (normalizeZ imgs) = map img_id imgs"
proof -
  have "set (sortedRefs imgs) = {0..<length imgs}"
    using sortedRefs_perm [of imgs] by (metis mset_eq_setD set_upt)
  then show ?thesis by (simp add: normalizeZ_def ids_assignRanks)
qed

lemma img_id_shiftOther [simp]: "img_id (shiftOther i oldZ newZ a) = img_id a"
  by (simp add: shiftOther_def)

lemma ids_shift: "map img_id (map (shiftOther i oldZ newZ) xs) = map img_id xs"
  by simp

lemma set_splice1: "k < length xs \<Longrightarrow> set xs = insert (xs ! k) (set (splice1 k xs))"
proof -
  assume "k < length xs"
  then have "xs = take k xs @ xs ! k # drop (Suc k) xs" by (rule id_take_nth_drop)
  then have "set xs = set (take k xs @ xs ! k # drop (Suc k) xs)" by simp
  then show ?thesis by (simp add: splice1_def)
qed

lemma hasImage_ids:
  assumes "map img_id (images t) = map img_id (images s)"
  shows "hasImage i t = hasImage i s"
proof -
  have "set (map img_id (images t)) = set (map img_id (images s))"
    by (simp only: assms)
  then have "img_id ` set (images t) = img_id ` set (images s)"
    by (simp only: set_map)
  then show ?thesis by (simp only: hasImage_iff)
qed

lemma selectionValid_ids:
  assumes "map img_id (images t) = map img_id (images s)" "selectedImageId t = selectedImageId s"
  shows "selectionValid t = selectionValid s"
proof (cases "selectedImageId s")
  case None
  with assms(2) show ?thesis by (simp add: selectionValid_def)
next
  case (Some i)
  with assms(2) hasImage_ids [OF assms(1), of i] show ?thesis by (simp add: selectionValid_def)
qed

lemma selectionValid_history [simp]:
  "selectionValid (pushHistory e a d s) = selectionValid s"
  "selectionValid (capHistory s) = selectionValid s"
  "selectionValid (clearCrop s) = selectionValid s"
  by (rule selectionValid_ids; simp)+

lemma selectionValid_addImage: "selectionValid s \<Longrightarrow> selectionValid (addImage e p s)"
  by (simp add: addImage_def) (simp add: selectionValid_def hasImage_iff)

lemma selectionValid_deleteImage:
  assumes "selectionValid s"
  shows "selectionValid (deleteImage e i s)"
proof (cases "findIndex (\<lambda>img. img_id img = i) (images s)")
  case None
  with assms show ?thesis by (simp add: deleteImage_def)
next
  case (Some k)
  from findIndex_Some [OF Some] have kl: "k < length (images s)" and ki: "img_id (images s ! k) = i"
    by simp_all
  have "selectionValid (s\<lparr>images := reindex 0 (splice1 k (images s)),
               selectedImageId := (if selectedImageId s = Some i then None else selectedImageId s)\<rparr>)"
  proof (cases "selectedImageId s = Some i")
    case True
    then show ?thesis by (simp add: selectionValid_def)
  next
    case False
    show ?thesis
    proof (cases "selectedImageId s")
      case None
      then show ?thesis by (simp add: selectionValid_def)
    next
      case (Some j)
      with False have ji: "j \<noteq> i" by simp
      from assms Some obtain a where a: "a \<in> set (images s)" "img_id a = j"
        by (auto simp add: selectionValid_def hasImage_iff)
      with ji ki have "a \<noteq> images s ! k" by auto
      with a(1) set_splice1 [OF kl] have "a \<in> set (splice1 k (images s))" by auto
      with a(2) have "j \<in> set (map img_id (reindex 0 (splice1 k (images s))))"
        by (auto simp add: ids_reindex)
      with Some ji show ?thesis by (simp add: selectionValid_def hasImage_iff)
    qed
  qed
  with Some show ?thesis by (simp add: deleteImage_def)
qed

lemma selectionValid_updateImage:
  assumes "selectionValid s" "u_id u = None"
  shows "selectionValid (updateImage i u s)"
proof (cases "findIndex (\<lambda>img. img_id img = i) (images s)")
  case None
  with assms show ?thesis by (simp add: updateImage_def)
next
  case (Some k)
  from findIndex_Some [OF Some] have kl: "k < length (images s)" by simp
  have "img_id (assignImage u (images s ! k)) = img_id (images s ! k)"
    using assms(2) by (simp add: assignImage_def)
  with kl have "map img_id ((images s)[k := assignImage u (images s ! k)]) = map img_id (images s)"
    by (simp add: map_img_id_update)
  then have "selectionValid (s\<lparr>images := (images s)[k := assignImage u (images s ! k)]\<rparr>) = selectionValid s"
    by (intro selectionValid_ids) simp_all
  with Some assms(1) show ?thesis by (simp add: updateImage_def)
qed

lemma selectionValid_reorderLayer:
  assumes "selectionValid s"
  shows "selectionValid (reorderLayer e i z s)"
proof (cases "findIndex (\<lambda>img. img_id img = i) (images s)")
  case None
  with assms show ?thesis by (simp add: reorderLayer_def)
next
  case (Some k)
  from findIndex_Some [OF Some] have kl: "k < length (images s)" by simp
  let ?imgs = "normalizeZ (map (shiftOther i (img_zIndex (images s ! k)) z)
                   ((images s)[k := (images s ! k)\<lparr>img_zIndex := z\<rparr>]))"
  have "map img_id ?imgs = map img_id ((images s)[k := (images s ! k)\<lparr>img_zIndex := z\<rparr>])"
    by (simp only: ids_normalizeZ ids_shift)
  also have "\<dots> = map img_id (images s)"
    using kl by (simp add: map_img_id_update)
  finally have "map img_id ?imgs = map img_id (images s)" .
  then have "selectionValid (s\<lparr>images := ?imgs\<rparr>) = selectionValid s"
    by (intro selectionValid_ids) simp_all
  with Some assms show ?thesis by (simp add: reorderLayer_def Let_def)
qed

lemma selectionValid_toggle:
  assumes "selectionValid s"
  shows "selectionValid (toggleLayerVisibility e i s)"
proof (cases "findIndex (\<lambda>img. img_id img = i) (images s)")
  case None
  with assms show ?thesis by (simp add: toggleLayerVisibility_def)
next
  case (Some k)
  from findIndex_Some [OF Some] have kl: "k < length (images s)" by simp
  let ?imgs = "(images s)[k := (images s ! k)\<lparr>img_visible := \<not> img_visible (images s ! k)\<rparr>]"
  have "map img_id ?imgs = map img_id (images s)"
    using kl by (simp add: map_img_id_update)
  then have "selectionValid (s\<lparr>images := ?imgs\<rparr>) = selectionValid s"
    by (intro selectionValid_ids) simp_all
  with Some assms show ?thesis by (simp add: toggleLayerVisibility_def)
qed

lemma selectionValid_applyCrop:
  assumes "selectionValid s"
  shows "selectionValid (applyCrop e s)"
proof (cases "cropReady s")
  case True
  then obtain i sel k where
    g: "crop_imageId (cropState s) = Some i" "i \<noteq> []" "crop_selection (cropState s) = Some sel"
      "findIndex (\<lambda>img. img_id img = i) (images s) = Some k"
    by (auto simp add: cropReady_def hasImage_def split: option.splits)
  from findIndex_Some [OF g(4)] have kl: "k < length (images s)" by simp
  let ?imgs = "(images s)[k := cropImage sel (images s ! k)]"
  have "map img_id ?imgs = map img_id (images s)"
    using kl by (simp add: map_img_id_update cropImage_def)
  then have "selectionValid (s\<lparr>images := ?imgs\<rparr>) = selectionValid s"
    by (intro selectionValid_ids) simp_all
  with g assms show ?thesis by (simp add: applyCrop_def)
next
  case False
  then have "applyCrop e s = clearCrop s"
    by (auto simp add: applyCrop_def cropReady_def hasImage_def split: option.splits)
  with assms show ?thesis by simp
qed

lemma selectionValid_step:
  assumes "selectionValid s" "selSafe s a"
  shows "\<exists>s'. imageReducer e s a = Inr s' \<and> selectionValid s'"
proof -
  have frame: "selectionValid t" if "images t = images s" "selectedImageId t = selectedImageId s" for t
    using selectionValid_ids [of t s] that assms(1) by simp
  show ?thesis
proof (cases a)
  case (ADD_IMAGE p)
  with assms show ?thesis by (simp add: selectionValid_addImage)
next
  case (DELETE_IMAGE i)
  with assms show ?thesis by (simp add: selectionValid_deleteImage)
next
  case (UPDATE_IMAGE i u)
  with assms show ?thesis by (simp add: selectionValid_updateImage)
next
  case (SELECT_IMAGE v)
  with assms show ?thesis
    by (auto simp add: selectionValid_def hasImage_def split: option.splits)
next
  case (ADD_HISTORY_STEP act desc)
  with assms show ?thesis by (simp add: addHistoryStep_def)
next
  case APPLY_CROP
  with assms show ?thesis by (simp add: selectionValid_applyCrop)
next
  case (REORDER_LAYER i z)
  with assms show ?thesis by (simp add: selectionValid_reorderLayer)
next
  case (TOGGLE_LAYER_VISIBILITY i)
  with assms show ?thesis by (simp add: selectionValid_toggle)
next
  case (LOAD_STATE l)
  with assms(2) have "images (loadState l s) = images s"
    "selectedImageId (loadState l s) = selectedImageId s"
    by (simp_all add: loadState_def)
  then have "selectionValid (loadState l s) = selectionValid s"
    by (intro selectionValid_ids) simp_all
  with LOAD_STATE assms(1) show ?thesis by simp
next
  case RESET_STATE
  then show ?thesis by (simp add: selectionValid_def)
qed (use assms(2) in \<open>simp_all add: frame clearCrop_def\<close>)
qed

lemma selectionValid_run:
  assumes "selSafeRun s ops" "selectionValid s"
  shows "\<exists>s'. run s ops = Inr s' \<and> selectionValid s'"
  using assms
proof (induction ops arbitrary: s)
  case Nil
  then show ?case by simp
next
  case (Cons ea ops)
  from Cons.prems(1) have safe: "selSafe s (snd ea)" by simp
  from selectionValid_step [OF Cons.prems(2) safe, of "fst ea"] obtain s1 where
    s1: "imageReducer (fst ea) s (snd ea) = Inr s1" "selectionValid s1"
    by blast
  with Cons.prems(1) have "selSafeRun s1 ops" by simp
  from Cons.IH [OF this s1(2)] s1(1) show ?case by simp
qed

lemma undo_redo_keep_selection:
  "undo s = Inr s' \<Longrightarrow> selectedImageId s' = selectedImageId s"
  "redo s = Inr s' \<Longrightarrow> selectedImageId s' = selectedImageId s"
  by (auto simp add: undo_def redo_def Let_def split: if_splits)

text \<open>
  Claim C9, as amended. From the empty document, every run of actions that at each
  point is neither \<^verbatim>\<open>UNDO\<close> nor \<^verbatim>\<open>REDO\<close>, nor a \<^verbatim>\<open>SELECT_IMAGE\<close> of an absent id,
  an id-rewriting \<^verbatim>\<open>UPDATE_IMAGE\<close> or a \<^verbatim>\<open>LOAD_STATE\<close> with a collection or a
  selection, ends (without an exception) in a state whose selection is null or names an
  image of the collection. In any state with such a selection \<^verbatim>\<open>DELETE_IMAGE\<close> leaves
  such a selection, and clears it when the deleted image was the selected one.
  \<^verbatim>\<open>UNDO\<close> and \<^verbatim>\<open>REDO\<close> never change \<^verbatim>\<open>selectedImageId\<close>.
\<close>

theorem selection_stays_valid:
  "(selSafeRun initialState ops \<longrightarrow> (\<exists>s. run initialState ops = Inr s \<and> selectionValid s))
   \<and> (selectionValid t \<longrightarrow>
        (\<exists>t'. imageReducer e t (DELETE_IMAGE i) = Inr t' \<and> selectionValid t'
           \<and> (hasImage i t \<and> selectedImageId t = Some i \<longrightarrow> selectedImageId t' = None)))
   \<and> (\<forall>t'. imageReducer e t UNDO = Inr t' \<or> imageReducer e t REDO = Inr t'
         \<longrightarrow> selectedImageId t' = selectedImageId t)"
proof (intro conjI impI allI)
  assume "selSafeRun initialState ops"
  moreover have "selectionValid initialState" by (simp add: selectionValid_def)
  ultimately show "\<exists>s. run initialState ops = Inr s \<and> selectionValid s"
    by (rule selectionValid_run)
next
  assume v: "selectionValid t"
  have "selectedImageId (deleteImage e i t) = None" if "hasImage i t" "selectedImageId t = Some i"
    using that by (auto simp add: deleteImage_def hasImage_def)
  with selectionValid_deleteImage [OF v, of e i]
  show "\<exists>t'. imageReducer e t (DELETE_IMAGE i) = Inr t' \<and> selectionValid t'
           \<and> (hasImage i t \<and> selectedImageId t = Some i \<longrightarrow> selectedImageId t' = None)"
    by simp
next
  fix t'
  assume "imageReducer e t UNDO = Inr t' \<or> imageReducer e t REDO = Inr t'"
  then have "undo t = Inr t' \<or> redo t = Inr t'" by simp
  then show "selectedImageId t' = selectedImageId t"
  proof
    assume "undo t = Inr t'"
    then show ?thesis by (rule undo_redo_keep_selection(1))
  next
    assume "redo t = Inr t'"
    then show ?thesis by (rule undo_redo_keep_selection(2))
  qed
qed


lemma undo_docAB:
  "imageReducer envC docAB UNDO = Inr (docAB\<lparr>historyIndex := 0, images := [imgA]\<rparr>)"
  by (simp add: undo_moves docAB_fields createHistoryStep_def)

theorem selection_stays_valid_witness:
  "selSafeRun initialState [(envA, ADD_IMAGE payA), (envB, ADD_IMAGE payB)]
   \<and> run initialState [(envA, ADD_IMAGE payA), (envB, ADD_IMAGE payB)] = Inr docAB
   \<and> selectionValid docAB
   \<and> hasImage idB docAB \<and> selectedImageId docAB = Some idB
   \<and> (\<exists>t'. imageReducer envC docAB (DELETE_IMAGE idB) = Inr t' \<and> selectionValid t'
         \<and> selectedImageId t' = None)
   \<and> imageReducer envC docAB UNDO = Inr (docAB\<lparr>historyIndex := 0, images := [imgA]\<rparr>)
   \<and> selectedImageId (docAB\<lparr>historyIndex := 0, images := [imgA]\<rparr>) = selectedImageId docAB"
proof -
  let ?ops = "[(envA, ADD_IMAGE payA), (envB, ADD_IMAGE payB)]"
  have h1: "selSafeRun initialState ?ops"
    by (simp add: docA_def [symmetric])
  have h2: "hasImage idB docAB" "selectedImageId docAB = Some idB"
    by (simp_all add: hasImage_iff docAB_fields imgB_fields)
  note t = selection_stays_valid [of ?ops docAB envC idB]
  from t h1 run_to_docAB have v: "selectionValid docAB" by auto
  from t v h2 have d: "\<exists>t'. imageReducer envC docAB (DELETE_IMAGE idB) = Inr t' \<and> selectionValid t'
         \<and> selectedImageId t' = None"
    by blast
  from t undo_docAB
  have u: "selectedImageId (docAB\<lparr>historyIndex := 0, images := [imgA]\<rparr>) = selectedImageId docAB"
    by blast
  from h1 run_to_docAB v h2 d undo_docAB u show ?thesis by blast
qed

text \<open>
  The claim as written includes \<^verbatim>\<open>UNDO\<close>: after two adds the second image is
  selected, and the undo restores the one-image collection while the selection, which is
  no part of a snapshot, still names the second image.
\<close>

theorem selection_dangles_after_undo:
  "selectionOf (run initialState [(envA, ADD_IMAGE payA), (envB, ADD_IMAGE payB), (envC, UNDO)])
     = Some (Some idB)
   \<and> layersOf (run initialState [(envA, ADD_IMAGE payA), (envB, ADD_IMAGE payB), (envC, UNDO)])
     = Some [(idA, 0)]
   \<and> idB \<noteq> idA"
proof -
  have r: "run initialState [(envA, ADD_IMAGE payA), (envB, ADD_IMAGE payB), (envC, UNDO)]
      = Inr (docAB\<lparr>historyIndex := 0, images := [imgA]\<rparr>)"
    using run_to_docAB undo_docAB
      run_append [of initialState "[(envA, ADD_IMAGE payA), (envB, ADD_IMAGE payB)]" "[(envC, UNDO)]"]
    by simp
  show ?thesis
    unfolding r using ids_distinct(1)
    by (simp add: selectionOf_def layersOf_def imagesOf_def docAB_fields imgA_fields)
qed

subsection \<open>\<^verbatim>\<open>APPLY_CROP\<close>\<close>

lemma cropState_clearCrop [simp]:
  "cropState (clearCrop s) = \<lparr> crop_imageId = None, crop_selection = None, crop_isActive = False \<rparr>"
  by (simp add: clearCrop_def)

text \<open>
  Claim C7, as amended. With a crop target that is neither null nor the empty string
  and is found in the collection (at index \<open>k\<close>, the first image with that id), and a
  selection that is not null, \<^verbatim>\<open>APPLY_CROP\<close> changes that one image only: its width
  and height become the selection's, the selection's x and y are added to its position;
  the history after the call is the history up to the cursor followed by one new step
  that holds the new collection, with the cursor on it. With a null or empty target, a
  target that no image has, or a null selection, collection, history and cursor are
  unchanged. In every case the crop sub-state ends null, null, inactive.
\<close>

theorem applyCrop_effect:
  "(crop_imageId (cropState s) = Some i \<and> i \<noteq> [] \<and> crop_selection (cropState s) = Some sel
      \<and> findIndex (\<lambda>img. img_id img = i) (images s) = Some k
     \<longrightarrow> (\<exists>s'. imageReducer e s APPLY_CROP = Inr s'
           \<and> images s' = (images s)[k := cropImage sel (images s ! k)]
           \<and> img_width (images s' ! k) = sel_width sel
           \<and> img_height (images s' ! k) = sel_height sel
           \<and> img_x (images s' ! k) = img_x (images s ! k) + sel_x sel
           \<and> img_y (images s' ! k) = img_y (images s ! k) + sel_y sel
           \<and> history s' = sliceTo (history s) (historyIndex s + 1)
                 @ [createHistoryStep e CropImage desc_crop (images s')]
           \<and> historyIndex s' = int (length (history s')) - 1
           \<and> cropState s' = \<lparr> crop_imageId = None, crop_selection = None, crop_isActive = False \<rparr>))
   \<and> (crop_imageId (cropState s) = None \<or> crop_imageId (cropState s) = Some []
        \<or> crop_selection (cropState s) = None
        \<or> (\<exists>j. crop_imageId (cropState s) = Some j \<and> \<not> hasImage j s)
     \<longrightarrow> (\<exists>s'. imageReducer e s APPLY_CROP = Inr s'
           \<and> images s' = images s \<and> history s' = history s \<and> historyIndex s' = historyIndex s
           \<and> cropState s' = \<lparr> crop_imageId = None, crop_selection = None, crop_isActive = False \<rparr>))"
proof (intro conjI impI)
  assume g: "crop_imageId (cropState s) = Some i \<and> i \<noteq> [] \<and> crop_selection (cropState s) = Some sel
      \<and> findIndex (\<lambda>img. img_id img = i) (images s) = Some k"
  from g findIndex_Some [of "\<lambda>img. img_id img = i" "images s" k]
  have kl: "k < length (images s)" by simp
  let ?s0 = "s\<lparr>images := (images s)[k := cropImage sel (images s ! k)]\<rparr>"
  have r: "applyCrop e s = clearCrop (pushHistory e CropImage desc_crop ?s0)"
    using g by (simp add: applyCrop_def)
  show "\<exists>s'. imageReducer e s APPLY_CROP = Inr s'
           \<and> images s' = (images s)[k := cropImage sel (images s ! k)]
           \<and> img_width (images s' ! k) = sel_width sel
           \<and> img_height (images s' ! k) = sel_height sel
           \<and> img_x (images s' ! k) = img_x (images s ! k) + sel_x sel
           \<and> img_y (images s' ! k) = img_y (images s ! k) + sel_y sel
           \<and> history s' = sliceTo (history s) (historyIndex s + 1)
                 @ [createHistoryStep e CropImage desc_crop (images s')]
           \<and> historyIndex s' = int (length (history s')) - 1
           \<and> cropState s' = \<lparr> crop_imageId = None, crop_selection = None, crop_isActive = False \<rparr>"
    using kl by (simp add: r history_pushHistory historyIndex_pushHistory cropImage_def)
next
  assume n: "crop_imageId (cropState s) = None \<or> crop_imageId (cropState s) = Some []
        \<or> crop_selection (cropState s) = None
        \<or> (\<exists>j. crop_imageId (cropState s) = Some j \<and> \<not> hasImage j s)"
  then have "\<not> cropReady s"
    by (auto simp add: cropReady_def split: option.splits)
  then have "applyCrop e s = clearCrop s"
    by (auto simp add: applyCrop_def cropReady_def hasImage_def split: option.splits)
  then show "\<exists>s'. imageReducer e s APPLY_CROP = Inr s'
           \<and> images s' = images s \<and> history s' = history s \<and> historyIndex s' = historyIndex s
           \<and> cropState s' = \<lparr> crop_imageId = None, crop_selection = None, crop_isActive = False \<rparr>"
    by simp
qed


lemma idA_nonempty: "idA \<noteq> []"
  by (simp add: idA_def generateId_def)

lemma cropDoc_fields:
  "images cropDoc = [imgA]" "history cropDoc = history docA" "historyIndex cropDoc = 0"
  "crop_imageId (cropState cropDoc) = Some idA" "crop_selection (cropState cropDoc) = Some selA"
  by (simp_all add: cropDoc_def docA_fields)

theorem applyCrop_effect_witness:
  "crop_imageId (cropState cropDoc) = Some idA \<and> idA \<noteq> [] \<and> crop_selection (cropState cropDoc) = Some selA
   \<and> findIndex (\<lambda>img. img_id img = idA) (images cropDoc) = Some 0
   \<and> (\<exists>s'. imageReducer envB cropDoc APPLY_CROP = Inr s'
         \<and> img_width (images s' ! 0) = 40 \<and> img_height (images s' ! 0) = 30
         \<and> img_x (images s' ! 0) = 10 \<and> img_y (images s' ! 0) = 5
         \<and> length (history s') = 2 \<and> historyIndex s' = 1
         \<and> cropState s' = \<lparr> crop_imageId = None, crop_selection = None, crop_isActive = False \<rparr>)
   \<and> crop_imageId (cropState docA) = None
   \<and> (\<exists>s'. imageReducer envB docA APPLY_CROP = Inr s'
         \<and> images s' = images docA \<and> history s' = history docA \<and> historyIndex s' = historyIndex docA
         \<and> cropState s' = \<lparr> crop_imageId = None, crop_selection = None, crop_isActive = False \<rparr>)"
proof -
  have h1: "crop_imageId (cropState cropDoc) = Some idA \<and> idA \<noteq> []
      \<and> crop_selection (cropState cropDoc) = Some selA
      \<and> findIndex (\<lambda>img. img_id img = idA) (images cropDoc) = Some 0"
    by (simp add: cropDoc_fields idA_nonempty imgA_fields)
  have h2: "crop_imageId (cropState docA) = None"
    by (simp add: docA_def addImage_def initialState_def pushHistory_def capHistory_def Let_def)
  from applyCrop_effect [of cropDoc idA selA 0 envB] h1
  obtain s' where s': "imageReducer envB cropDoc APPLY_CROP = Inr s'"
    "img_width (images s' ! 0) = sel_width selA" "img_height (images s' ! 0) = sel_height selA"
    "img_x (images s' ! 0) = img_x (images cropDoc ! 0) + sel_x selA"
    "img_y (images s' ! 0) = img_y (images cropDoc ! 0) + sel_y selA"
    "history s' = sliceTo (history cropDoc) (historyIndex cropDoc + 1)
                 @ [createHistoryStep envB CropImage desc_crop (images s')]"
    "historyIndex s' = int (length (history s')) - 1"
    "cropState s' = \<lparr> crop_imageId = None, crop_selection = None, crop_isActive = False \<rparr>"
    by blast
  have len: "length (history s') = 2"
    by (simp add: s'(6) cropDoc_fields docA_fields sliceTo_def)
  have a: "\<exists>s'. imageReducer envB cropDoc APPLY_CROP = Inr s'
         \<and> img_width (images s' ! 0) = 40 \<and> img_height (images s' ! 0) = 30
         \<and> img_x (images s' ! 0) = 10 \<and> img_y (images s' ! 0) = 5
         \<and> length (history s') = 2 \<and> historyIndex s' = 1
         \<and> cropState s' = \<lparr> crop_imageId = None, crop_selection = None, crop_isActive = False \<rparr>"
    using s' len by (simp add: selA_def cropDoc_fields imgA_fields)
  from applyCrop_effect [of docA idA selA 0 envB] h2
  have b: "\<exists>s'. imageReducer envB docA APPLY_CROP = Inr s'
         \<and> images s' = images docA \<and> history s' = history docA \<and> historyIndex s' = historyIndex docA
         \<and> cropState s' = \<lparr> crop_imageId = None, crop_selection = None, crop_isActive = False \<rparr>"
    by blast
  from h1 h2 a b show ?thesis by blast
qed

text \<open>
  The claim as written asks only for a non-null target that exists. The guard
  \<^verbatim>\<open>cropState.imageId && cropState.selection\<close> is a truthiness test, and the empty
  string is falsy: when the image's id is the empty string and the crop target is that
  id, with a selection of width 40, \<^verbatim>\<open>APPLY_CROP\<close> leaves the width at 100 and pushes
  no step.
\<close>

theorem applyCrop_empty_id_counterexample:
  "map_option (map img_id) (imagesOf (run initialState emptyIdOps)) = Some [[]]
   \<and> cropStateOf (run initialState emptyIdOps)
       = Some \<lparr> crop_imageId = Some [], crop_selection = Some selA, crop_isActive = True \<rparr>
   \<and> sel_width selA = 40
   \<and> map_option (map img_width) (imagesOf (run initialState (emptyIdOps @ [(envC, APPLY_CROP)])))
       = Some [100]
   \<and> historyLengthOf (run initialState emptyIdOps) = Some 1
   \<and> historyLengthOf (run initialState (emptyIdOps @ [(envC, APPLY_CROP)])) = Some 1"
proof -
  let ?d = "docA\<lparr>images := [assignImage (noUpdates\<lparr>u_id := Some []\<rparr>) imgA],
      cropState := \<lparr> crop_imageId = Some [], crop_selection = Some selA, crop_isActive = True \<rparr>\<rparr>"
  have r: "run initialState emptyIdOps = Inr ?d"
    by (simp add: emptyIdOps_def docA_def [symmetric] updateImage_def docA_fields imgA_fields)
  have c: "applyCrop envC ?d = clearCrop ?d" by (simp add: applyCrop_def)
  have r2: "run initialState (emptyIdOps @ [(envC, APPLY_CROP)]) = Inr (clearCrop ?d)"
    by (simp add: run_append r c)
  show ?thesis
    unfolding r r2
    by (simp add: imagesOf_def cropStateOf_def historyLengthOf_def assignImage_def noUpdates_def
        selA_def imgA_fields docA_fields)
qed

subsection \<open>The anchor corner of a resize\<close>





lemma floorSize_fields [simp]:
  "g_x (floorSize g) = g_x g" "g_y (floorSize g) = g_y g"
  by (simp_all add: floorSize_def)















subsection \<open>Further properties: the cursor, and the cap where it is checked\<close>

lemma cursorInRange_tipped: "tipped s \<Longrightarrow> cursorInRange s"
  by (auto simp add: tipped_def cursorInRange_def)

lemma cursorInRange_frame:
  "history t = history s \<Longrightarrow> historyIndex t = historyIndex s \<Longrightarrow> cursorInRange s \<Longrightarrow> cursorInRange t"
  by (simp add: cursorInRange_def)

lemma cursorInRange_step:
  assumes "cursorInRange s" "keepsCursor a"
  shows "\<exists>s'. imageReducer e s a = Inr s' \<and> cursorInRange s'"
proof (cases "appendingKind a")
  case True
  show ?thesis
  proof (cases "appends e s a")
    case True
    from appends_result [OF True] show ?thesis using cursorInRange_tipped by blast
  next
    case False
    from not_appends_frame [OF \<open>appendingKind a\<close> False] assms(1) show ?thesis
      using cursorInRange_frame by blast
  qed
next
  case False
  have fr: "cursorInRange t" if "history t = history s" "historyIndex t = historyIndex s" for t
    using that assms(1) by (rule cursorInRange_frame)
  show ?thesis
  proof (cases a)
    case (UPDATE_IMAGE i u)
    then show ?thesis
      by (cases "findIndex (\<lambda>img. img_id img = i) (images s)") (simp_all add: updateImage_def fr assms(1))
  next
    case UNDO
    with assms(1) show ?thesis
      by (auto simp add: undo_def cursorInRange_def Let_def)
  next
    case REDO
    with assms(1) show ?thesis
      by (auto simp add: redo_def cursorInRange_def Let_def)
  next
    case (LOAD_STATE l)
    with assms(2) have "history (loadState l s) = history s" "historyIndex (loadState l s) = historyIndex s"
      by (simp_all add: loadState_def)
    with LOAD_STATE show ?thesis by (simp add: fr)
  next
    case RESET_STATE
    then show ?thesis by (simp add: cursorInRange_def)
  qed (use False in \<open>simp_all add: fr clearCrop_def\<close>)
qed

text \<open>
  From the empty document, no run of actions throws, and the cursor stays \<open>-1\<close> on an
  empty history or the index of a step, as long as no \<^verbatim>\<open>LOAD_STATE\<close> brings a history
  or a cursor.
\<close>

theorem run_total_cursor_in_range:
  assumes "list_all (\<lambda>ea. keepsCursor (snd ea)) ops"
  shows "\<exists>s. run initialState ops = Inr s
           \<and> - 1 \<le> historyIndex s \<and> historyIndex s < int (length (history s))"
proof -
  have gen: "\<exists>s'. run s ops = Inr s' \<and> cursorInRange s'"
    if "list_all (\<lambda>ea. keepsCursor (snd ea)) ops" "cursorInRange s" for s
    using that
  proof (induction ops arbitrary: s)
    case Nil
    then show ?case by simp
  next
    case (Cons ea ops)
    from Cons.prems(1) have k: "keepsCursor (snd ea)" and rest: "list_all (\<lambda>ea. keepsCursor (snd ea)) ops"
      by simp_all
    from cursorInRange_step [OF Cons.prems(2) k, of "fst ea"] obtain s1 where
      s1: "imageReducer (fst ea) s (snd ea) = Inr s1" "cursorInRange s1"
      by blast
    from Cons.IH [OF rest s1(2)] s1(1) show ?case by simp
  qed
  have "cursorInRange initialState" by (simp add: cursorInRange_def)
  from gen [OF assms this] show ?thesis by (simp add: cursorInRange_def)
qed

theorem run_total_cursor_in_range_witness:
  "list_all (\<lambda>ea. keepsCursor (snd ea))
     [(envA, ADD_IMAGE payA), (envB, ADD_IMAGE payB), (envC, UNDO), (envC, UNDO), (envC, REDO)]
   \<and> (\<exists>s. run initialState
          [(envA, ADD_IMAGE payA), (envB, ADD_IMAGE payB), (envC, UNDO), (envC, UNDO), (envC, REDO)]
        = Inr s \<and> - 1 \<le> historyIndex s \<and> historyIndex s < int (length (history s)))"
proof -
  have h: "list_all (\<lambda>ea. keepsCursor (snd ea))
     [(envA, ADD_IMAGE payA), (envB, ADD_IMAGE payB), (envC, UNDO), (envC, UNDO), (envC, REDO)]"
    by simp
  from h run_total_cursor_in_range [OF h] show ?thesis by blast
qed

lemma length_capped_push:
  assumes "length (history s) \<le> 100"
  shows "length (history (capHistory (pushHistory e act desc s))) \<le> 100"
proof -
  have "length (history (pushHistory e act desc s)) \<le> 101"
    using length_sliceTo [of "history s" "historyIndex s + 1"] assms
    by (simp add: history_pushHistory)
  then show ?thesis by (auto simp add: capHistory_def)
qed

lemma capsHistory_step:
  assumes "length (history s) \<le> 100" "capsHistory a" "imageReducer e s a = Inr s'"
  shows "length (history s') \<le> 100"
proof (cases a)
  case (ADD_IMAGE p)
  with assms(1,3) length_capped_push [of "s\<lparr>images := images s @ [newImage e p s],
                selectedImageId := Some (img_id (newImage e p s))\<rparr>" e AddImage desc_add]
  show ?thesis by (auto simp add: addImage_def split: if_splits)
next
  case (UPDATE_IMAGE i u)
  with assms(1,3) show ?thesis
    by (cases "findIndex (\<lambda>img. img_id img = i) (images s)") (auto simp add: updateImage_def)
next
  case UNDO
  with assms(1,3) show ?thesis by (auto simp add: undo_def Let_def split: if_splits)
next
  case REDO
  with assms(1,3) show ?thesis by (auto simp add: redo_def Let_def split: if_splits)
next
  case (ADD_HISTORY_STEP act desc)
  with assms(1,3) length_capped_push [of s e act desc] show ?thesis
    by (auto simp add: addHistoryStep_def)
next
  case (REORDER_LAYER i z)
  show ?thesis
  proof (cases "findIndex (\<lambda>img. img_id img = i) (images s)")
    case None
    with REORDER_LAYER assms(1,3) show ?thesis by (auto simp add: reorderLayer_def)
  next
    case (Some k)
    with REORDER_LAYER assms(1,3)
      length_capped_push [of "s\<lparr>images := normalizeZ (map (shiftOther i (img_zIndex (images s ! k)) z)
                   ((images s)[k := (images s ! k)\<lparr>img_zIndex := z\<rparr>]))\<rparr>" e ReorderLayer desc_reorder]
    show ?thesis by (auto simp add: reorderLayer_def Let_def)
  qed
next
  case (LOAD_STATE l)
  with assms show ?thesis by (auto simp add: loadState_def)
qed (use assms in \<open>auto simp add: clearCrop_def\<close>)

text \<open>
  Where the cap is checked it holds: from the empty document, a run that uses neither
  \<^verbatim>\<open>DELETE_IMAGE\<close>, \<^verbatim>\<open>TOGGLE_LAYER_VISIBILITY\<close> nor \<^verbatim>\<open>APPLY_CROP\<close> (nor a
  \<^verbatim>\<open>LOAD_STATE\<close> with a history) never holds more than 100 steps.
\<close>

theorem history_capped_where_checked:
  assumes "list_all (\<lambda>ea. capsHistory (snd ea)) ops" "run initialState ops = Inr s"
  shows "length (history s) \<le> 100"
proof -
  have gen: "length (history s') \<le> 100"
    if "list_all (\<lambda>ea. capsHistory (snd ea)) ops" "length (history s0) \<le> 100" "run s0 ops = Inr s'"
    for s0 s'
    using that
  proof (induction ops arbitrary: s0)
    case Nil
    then show ?case by simp
  next
    case (Cons ea ops)
    from Cons.prems(3) obtain s1 where
      s1: "imageReducer (fst ea) s0 (snd ea) = Inr s1" "run s1 ops = Inr s'"
      by (auto split: sum.splits)
    from Cons.prems(1) have c: "capsHistory (snd ea)" and rest: "list_all (\<lambda>ea. capsHistory (snd ea)) ops"
      by simp_all
    from capsHistory_step [OF Cons.prems(2) c s1(1)] have "length (history s1) \<le> 100" .
    from Cons.IH [OF rest this s1(2)] show ?case .
  qed
  from gen [OF assms(1) _ assms(2)] show ?thesis by simp
qed

theorem history_capped_where_checked_witness:
  "list_all (\<lambda>ea. capsHistory (snd ea)) [(envA, ADD_IMAGE payA), (envB, ADD_IMAGE payB)]
   \<and> run initialState [(envA, ADD_IMAGE payA), (envB, ADD_IMAGE payB)] = Inr docAB
   \<and> length (history docAB) \<le> 100"
proof -
  have h: "list_all (\<lambda>ea. capsHistory (snd ea)) [(envA, ADD_IMAGE payA), (envB, ADD_IMAGE payB)]"
    by simp
  from h run_to_docAB history_capped_where_checked [OF h run_to_docAB] show ?thesis by simp
qed

end
